theory Spec2Isabelle
  imports Main "HOL-Library.Word"
begin

unbundle bit_operations_syntax

section \<open>Data model\<close>

text \<open>
  \<^verbatim>\<open>typedef unsigned char Byte\<close>: a byte is an 8-bit word. Sizes and indices
  (\<^verbatim>\<open>size_t\<close>) are natural numbers; where the source lets an unsigned index wrap
  below zero the wrapped value \<open>2 ^ 64 - 1\<close> is written out. A vector access out of
  range (undefined behaviour in the source, or an uncaught \<^verbatim>\<open>std::out_of_range\<close>)
  is the error \<open>Out_Of_Range\<close> here.
\<close>

type_synonym byte = "8 word"

datatype error =
    File_Type_Error
  | Invalid_Input_Error
  | Read_File_Error_Image
  | Read_File_Error_Zip
  | File_Size_Error_Png_Too_Small
  | File_Size_Error_Zip_Too_Small
  | File_Size_Error_Combined_Exceeds
  | Image_File_Error_Not_Png
  | Image_File_Error_Bad_Char
  | Image_File_Error_Color_Type
  | Image_File_Error_Dims
  | Image_File_Error_Idat_Crc
  | Image_File_Error_Plte_Missing
  | Zip_File_Error_Not_Zip
  | Zip_File_Error_Name_Too_Short
  | File_Size_Error_Script_Exceeds
  | File_Size_Error_Total_Exceeds
  | Out_Of_Range

record PDV_STRUCT =
  Image_Vec :: "byte list"
  Zip_Vec :: "byte list"
  Script_Vec :: "byte list"
  image_name :: string
  zip_name :: string
  image_size :: nat
  zip_size :: nat
  script_size :: nat
  combined_file_size :: nat
  big_endian :: bool

definition MAX_FILE_SIZE :: nat where
  "MAX_FILE_SIZE = 209715200"

definition BAD_CHAR :: "byte list" where
  "BAD_CHAR = [0x22, 0x27, 0x28, 0x29, 0x3B, 0x3E, 0x60]"

definition bytes_of :: "string \<Rightarrow> byte list" where
  "bytes_of s = map of_char s"

definition slice :: "'a list \<Rightarrow> nat \<Rightarrow> nat \<Rightarrow> 'a list" where
  "slice xs i n = take n (drop i xs)"

definition insert_at :: "'a list \<Rightarrow> nat \<Rightarrow> 'a list \<Rightarrow> 'a list" where
  "insert_at vec pos xs = take pos vec @ xs @ drop pos vec"

section \<open>\<^verbatim>\<open>std::search\<close>\<close>

text \<open>
  \<open>search_list xs pat\<close> is the offset of the first occurrence of \<open>pat\<close> in \<open>xs\<close>, and
  \<open>length xs\<close> when there is none; \<open>search_from vec first pat\<close> is
  \<^verbatim>\<open>std::search(vec.begin() + first, vec.end(), pat.begin(), pat.end()) - vec.begin()\<close>.
\<close>

fun search_list :: "byte list \<Rightarrow> byte list \<Rightarrow> nat" where
  "search_list [] pat = 0"
| "search_list (x # xs) pat =
     (if take (length pat) (x # xs) = pat then 0 else Suc (search_list xs pat))"

definition search_from :: "byte list \<Rightarrow> nat \<Rightarrow> byte list \<Rightarrow> nat" where
  "search_from vec first pat = first + search_list (drop first vec) pat"

section \<open>CRC-32\<close>

definition Crc_Table :: "64 word list" where
  "Crc_Table =
     [0x00, 0x77073096, 0xEE0E612C, 0x990951BA, 0x76DC419, 0x706AF48F, 0xE963A535, 0x9E6495A3, 0xEDB8832, 0x79DCB8A4, 0xE0D5E91E, 0x97D2D988, 0x9B64C2B, 0x7EB17CBD,
      0xE7B82D07, 0x90BF1D91, 0x1DB71064, 0x6AB020F2, 0xF3B97148, 0x84BE41DE, 0x1ADAD47D, 0x6DDDE4EB, 0xF4D4B551, 0x83D385C7, 0x136C9856, 0x646BA8C0, 0xFD62F97A, 0x8A65C9EC,
      0x14015C4F, 0x63066CD9, 0xFA0F3D63, 0x8D080DF5, 0x3B6E20C8, 0x4C69105E, 0xD56041E4, 0xA2677172, 0x3C03E4D1, 0x4B04D447, 0xD20D85FD, 0xA50AB56B, 0x35B5A8FA, 0x42B2986C,
      0xDBBBC9D6, 0xACBCF940, 0x32D86CE3, 0x45DF5C75, 0xDCD60DCF, 0xABD13D59, 0x26D930AC, 0x51DE003A, 0xC8D75180, 0xBFD06116, 0x21B4F4B5, 0x56B3C423, 0xCFBA9599, 0xB8BDA50F,
      0x2802B89E, 0x5F058808, 0xC60CD9B2, 0xB10BE924, 0x2F6F7C87, 0x58684C11, 0xC1611DAB, 0xB6662D3D, 0x76DC4190, 0x1DB7106, 0x98D220BC, 0xEFD5102A, 0x71B18589, 0x6B6B51F,
      0x9FBFE4A5, 0xE8B8D433, 0x7807C9A2, 0xF00F934, 0x9609A88E, 0xE10E9818, 0x7F6A0DBB, 0x86D3D2D, 0x91646C97, 0xE6635C01, 0x6B6B51F4, 0x1C6C6162, 0x856530D8, 0xF262004E,
      0x6C0695ED, 0x1B01A57B, 0x8208F4C1, 0xF50FC457, 0x65B0D9C6, 0x12B7E950, 0x8BBEB8EA, 0xFCB9887C, 0x62DD1DDF, 0x15DA2D49, 0x8CD37CF3, 0xFBD44C65, 0x4DB26158, 0x3AB551CE,
      0xA3BC0074, 0xD4BB30E2, 0x4ADFA541, 0x3DD895D7, 0xA4D1C46D, 0xD3D6F4FB, 0x4369E96A, 0x346ED9FC, 0xAD678846, 0xDA60B8D0, 0x44042D73, 0x33031DE5, 0xAA0A4C5F, 0xDD0D7CC9,
      0x5005713C, 0x270241AA, 0xBE0B1010, 0xC90C2086, 0x5768B525, 0x206F85B3, 0xB966D409, 0xCE61E49F, 0x5EDEF90E, 0x29D9C998, 0xB0D09822, 0xC7D7A8B4, 0x59B33D17, 0x2EB40D81,
      0xB7BD5C3B, 0xC0BA6CAD, 0xEDB88320, 0x9ABFB3B6, 0x3B6E20C, 0x74B1D29A, 0xEAD54739, 0x9DD277AF, 0x4DB2615, 0x73DC1683, 0xE3630B12, 0x94643B84, 0xD6D6A3E, 0x7A6A5AA8,
      0xE40ECF0B, 0x9309FF9D, 0xA00AE27, 0x7D079EB1, 0xF00F9344, 0x8708A3D2, 0x1E01F268, 0x6906C2FE, 0xF762575D, 0x806567CB, 0x196C3671, 0x6E6B06E7, 0xFED41B76, 0x89D32BE0,
      0x10DA7A5A, 0x67DD4ACC, 0xF9B9DF6F, 0x8EBEEFF9, 0x17B7BE43, 0x60B08ED5, 0xD6D6A3E8, 0xA1D1937E, 0x38D8C2C4, 0x4FDFF252, 0xD1BB67F1, 0xA6BC5767, 0x3FB506DD, 0x48B2364B,
      0xD80D2BDA, 0xAF0A1B4C, 0x36034AF6, 0x41047A60, 0xDF60EFC3, 0xA867DF55, 0x316E8EEF, 0x4669BE79, 0xCB61B38C, 0xBC66831A, 0x256FD2A0, 0x5268E236, 0xCC0C7795, 0xBB0B4703,
      0x220216B9, 0x5505262F, 0xC5BA3BBE, 0xB2BD0B28, 0x2BB45A92, 0x5CB36A04, 0xC2D7FFA7, 0xB5D0CF31, 0x2CD99E8B, 0x5BDEAE1D, 0x9B64C2B0, 0xEC63F226, 0x756AA39C, 0x26D930A,
      0x9C0906A9, 0xEB0E363F, 0x72076785, 0x5005713, 0x95BF4A82, 0xE2B87A14, 0x7BB12BAE, 0xCB61B38, 0x92D28E9B, 0xE5D5BE0D, 0x7CDCEFB7, 0xBDBDF21, 0x86D3D2D4, 0xF1D4E242,
      0x68DDB3F8, 0x1FDA836E, 0x81BE16CD, 0xF6B9265B, 0x6FB077E1, 0x18B74777, 0x88085AE6, 0xFF0F6A70, 0x66063BCA, 0x11010B5C, 0x8F659EFF, 0xF862AE69, 0x616BFFD3, 0x166CCF45,
      0xA00AE278, 0xD70DD2EE, 0x4E048354, 0x3903B3C2, 0xA7672661, 0xD06016F7, 0x4969474D, 0x3E6E77DB, 0xAED16A4A, 0xD9D65ADC, 0x40DF0B66, 0x37D83BF0, 0xA9BCAE53, 0xDEBB9EC5,
      0x47B2CF7F, 0x30B5FFE9, 0xBDBDF21C, 0xCABAC28A, 0x53B39330, 0x24B4A3A6, 0xBAD03605, 0xCDD70693, 0x54DE5729, 0x23D967BF, 0xB3667A2E, 0xC4614AB8, 0x5D681B02, 0x2A6F2B94,
      0xB40BBE37, 0xC30C8EA1, 0x5A05DF1B, 0x2D02EF8D]"

definition Crc_Update :: "64 word \<Rightarrow> byte list \<Rightarrow> 64 word" where
  "Crc_Update crc buf =
     foldl (\<lambda>c b. (Crc_Table ! unat ((c XOR ucast b) AND 0xff)) XOR drop_bit 8 c) crc buf"

definition Crc :: "byte list \<Rightarrow> 64 word" where
  "Crc buf = Crc_Update 0xffffffff buf XOR 0xffffffff"

section \<open>Byte-field writer\<close>

function Value_Updater :: "byte list \<Rightarrow> nat \<Rightarrow> nat \<Rightarrow> nat \<Rightarrow> bool \<Rightarrow> error + byte list" where
  "Value_Updater vec value_insert_index NEW_VALUE bits big_end =
     (if bits = 0 then Inr vec
      else if bits < 8 \<or> length vec \<le> value_insert_index then Inl Out_Of_Range
      else
        let vec' = vec[value_insert_index := of_nat ((NEW_VALUE div 2 ^ (bits - 8)) mod 256)]
        in if big_end
           then Value_Updater vec' (value_insert_index + 1) NEW_VALUE (bits - 8) big_end
           else Value_Updater vec'
                  (if value_insert_index = 0 then 2 ^ 64 - 1 else value_insert_index - 1)
                  NEW_VALUE (bits - 8) big_end)"
  by pat_completeness auto
termination
  by (relation "measure (\<lambda>(vec, i, v, bits, be). bits)") auto

declare Value_Updater.simps [simp del]

text \<open>Reading a field back: most significant byte first, and least significant first.\<close>

definition read_be :: "byte list \<Rightarrow> nat" where
  "read_be bs = foldl (\<lambda>a b. a * 256 + unat b) 0 bs"

definition read_le :: "byte list \<Rightarrow> nat" where
  "read_le bs = read_be (rev bs)"

text \<open>The shift-and-or expressions with which the source reads integers from a vector.\<close>

definition get_u32_be :: "byte list \<Rightarrow> nat \<Rightarrow> nat" where
  "get_u32_be vec i =
     push_bit 24 (unat (vec ! i)) OR push_bit 16 (unat (vec ! (i + 1)))
       OR push_bit 8 (unat (vec ! (i + 2))) OR unat (vec ! (i + 3))"

definition get_u24_be :: "byte list \<Rightarrow> nat \<Rightarrow> nat" where
  "get_u24_be vec i =
     push_bit 16 (unat (vec ! i)) OR push_bit 8 (unat (vec ! (i + 1))) OR unat (vec ! (i + 2))"

definition get_u16 :: "byte \<Rightarrow> byte \<Rightarrow> nat" where
  "get_u16 hi lo = push_bit 8 (unat hi) OR unat lo"

section \<open>Output sink\<close>

definition Write_Out_Polyglot_File :: "PDV_STRUCT \<Rightarrow> error + byte list" where
  "Write_Out_Polyglot_File pdv = Inr (take (image_size pdv) (Image_Vec pdv))"

section \<open>ZIP offset fixer\<close>

definition START_CENTRAL_DIR_SIG :: "byte list" where
  "START_CENTRAL_DIR_SIG = [0x50, 0x4B, 0x01, 0x02]"

definition END_CENTRAL_DIR_SIG :: "byte list" where
  "END_CENTRAL_DIR_SIG = [0x50, 0x4B, 0x05, 0x06]"

definition ZIP_SIG :: "byte list" where
  "ZIP_SIG = [0x50, 0x4B, 0x03, 0x04]"

text \<open>
  The loop \<^verbatim>\<open>while (zip_records--)\<close>. Besides the vector it returns the list of the
  \<open>(central_local_index, new_offset)\<close> pairs it passed to \<open>Value_Updater\<close>, in order.
\<close>

function fix_records ::
  "byte list \<Rightarrow> nat \<Rightarrow> nat \<Rightarrow> nat \<Rightarrow> (nat \<times> nat) list \<Rightarrow> error + byte list \<times> (nat \<times> nat) list" where
  "fix_records vec zip_records new_offset central_local_index written =
     (if zip_records = 0 then Inr (vec, written)
      else if length vec < new_offset + 1 \<or> length vec < central_local_index
      then Inl Out_Of_Range
      else
        let new_offset' = search_from vec (new_offset + 1) ZIP_SIG;
            central_local_index' = 45 + search_from vec central_local_index START_CENTRAL_DIR_SIG
        in case Value_Updater vec central_local_index' new_offset' 32 False of
             Inl e \<Rightarrow> Inl e
           | Inr vec' \<Rightarrow>
               fix_records vec' (zip_records - 1) new_offset' central_local_index'
                 (written @ [(central_local_index', new_offset')]))"
  by pat_completeness auto
termination
  by (relation "measure (\<lambda>(vec, n, off, cli, w). n)") auto

declare fix_records.simps [simp del]

definition START_CENTRAL_DIR_INDEX :: "byte list \<Rightarrow> nat \<Rightarrow> nat" where
  "START_CENTRAL_DIR_INDEX vec IDAT_ZIP_INDEX = search_from vec IDAT_ZIP_INDEX START_CENTRAL_DIR_SIG"

definition END_CENTRAL_DIR_INDEX :: "byte list \<Rightarrow> nat \<Rightarrow> nat" where
  "END_CENTRAL_DIR_INDEX vec IDAT_ZIP_INDEX =
     search_from vec (START_CENTRAL_DIR_INDEX vec IDAT_ZIP_INDEX) END_CENTRAL_DIR_SIG"

text \<open>The number of records the fixer reads from the end record.\<close>

definition zip_records_of :: "byte list \<Rightarrow> nat \<Rightarrow> nat" where
  "zip_records_of vec IDAT_ZIP_INDEX =
     (let zip_records_index = END_CENTRAL_DIR_INDEX vec IDAT_ZIP_INDEX + 11
      in get_u16 (vec ! zip_records_index) (vec ! (zip_records_index - 1)))"

text \<open>
  \<open>Fix_Zip_Offset_trace\<close> is the body of \<^verbatim>\<open>Fix_Zip_Offset\<close> on the vector
  \<^verbatim>\<open>pdv.Image_Vec\<close>; it returns the vector together with the writes of the loop.
\<close>

definition Fix_Zip_Offset_trace ::
  "byte list \<Rightarrow> nat \<Rightarrow> error + byte list \<times> (nat \<times> nat) list" where
  "Fix_Zip_Offset_trace vec IDAT_ZIP_INDEX =
     (if length vec < IDAT_ZIP_INDEX then Inl Out_Of_Range
      else
        let start_central = START_CENTRAL_DIR_INDEX vec IDAT_ZIP_INDEX;
            end_central = END_CENTRAL_DIR_INDEX vec IDAT_ZIP_INDEX;
            zip_records_index = end_central + 11;
            comment_length_index = end_central + 21;
            end_central_start_index = end_central + 19;
            central_local_index = (if start_central = 0 then 2 ^ 64 - 1 else start_central - 1);
            new_offset = IDAT_ZIP_INDEX
        in if length vec \<le> zip_records_index then Inl Out_Of_Range
           else
             let zip_records = get_u16 (vec ! zip_records_index) (vec ! (zip_records_index - 1))
             in case fix_records vec zip_records new_offset central_local_index [] of
                  Inl e \<Rightarrow> Inl e
                | Inr (vec1, written) \<Rightarrow>
                    (case Value_Updater vec1 end_central_start_index start_central 32 False of
                       Inl e \<Rightarrow> Inl e
                     | Inr vec2 \<Rightarrow>
                         if length vec2 \<le> comment_length_index then Inl Out_Of_Range
                         else
                           let comment_length =
                                 16 + get_u16 (vec2 ! comment_length_index)
                                        (vec2 ! (comment_length_index - 1))
                           in (case Value_Updater vec2 comment_length_index comment_length 16 False of
                                 Inl e \<Rightarrow> Inl e
                               | Inr vec3 \<Rightarrow> Inr (vec3, written))))"

definition Fix_Zip_Offset :: "PDV_STRUCT \<Rightarrow> nat \<Rightarrow> error + PDV_STRUCT" where
  "Fix_Zip_Offset pdv IDAT_ZIP_INDEX =
     (case Fix_Zip_Offset_trace (Image_Vec pdv) IDAT_ZIP_INDEX of
        Inl e \<Rightarrow> Inl e
      | Inr (vec, written) \<Rightarrow> Inr (pdv\<lparr>Image_Vec := vec, big_endian := False\<rparr>))"

section \<open>Assembler\<close>

definition Combine_Vectors :: "PDV_STRUCT \<Rightarrow> error + byte list" where
  "Combine_Vectors pdv =
     (if length (Image_Vec pdv) < 33 then Inl Out_Of_Range
      else
        let vec1 = insert_at (Image_Vec pdv) 33 (Script_Vec pdv);
            vec2 = insert_at vec1 (length vec1 - 12) (Zip_Vec pdv);
            pdv1 = pdv\<lparr>Image_Vec := vec2\<rparr>;
            IDAT_ZIP_INDEX = image_size pdv1 + script_size pdv1 - 8
        in case Fix_Zip_Offset pdv1 IDAT_ZIP_INDEX of
             Inl e \<Rightarrow> Inl e
           | Inr pdv2 \<Rightarrow>
               if length (Image_Vec pdv2) < IDAT_ZIP_INDEX + (zip_size pdv2 - 8)
               then Inl Out_Of_Range
               else
                 let IDAT_ZIP_CRC = unat (Crc (slice (Image_Vec pdv2) IDAT_ZIP_INDEX (zip_size pdv2 - 8)));
                     pdv3 = pdv2\<lparr>image_size := length (Image_Vec pdv2)\<rparr>;
                     crc_insert_index = image_size pdv3 - 16;
                     pdv4 = pdv3\<lparr>big_endian := True\<rparr>
                 in case Value_Updater (Image_Vec pdv4) crc_insert_index IDAT_ZIP_CRC 32 (big_endian pdv4) of
                      Inl e \<Rightarrow> Inl e
                    | Inr vec \<Rightarrow> Write_Out_Polyglot_File (pdv4\<lparr>Image_Vec := vec\<rparr>))"

section \<open>Script composer\<close>

definition Script_Template :: "byte list" where
  "Script_Template =
     [0x00, 0x00, 0x00, 0xFD, 0x69, 0x43, 0x43, 0x50, 0x73, 0x63, 0x72, 0x00, 0x00, 0x0D, 0x52,
      0x45, 0x4D, 0x3B, 0x63, 0x6C, 0x65, 0x61, 0x72, 0x3B, 0x6D, 0x6B, 0x64, 0x69, 0x72, 0x20,
      0x2E, 0x2F, 0x70, 0x64, 0x76, 0x7A, 0x69, 0x70, 0x5F, 0x65, 0x78, 0x74, 0x72, 0x61, 0x63,
      0x74, 0x65, 0x64, 0x3B, 0x6D, 0x76, 0x20, 0x22, 0x24, 0x30, 0x22, 0x20, 0x2E, 0x2F, 0x70,
      0x64, 0x76, 0x7A, 0x69, 0x70, 0x5F, 0x65, 0x78, 0x74, 0x72, 0x61, 0x63, 0x74, 0x65, 0x64,
      0x3B, 0x63, 0x64, 0x20, 0x2E, 0x2F, 0x70, 0x64, 0x76, 0x7A, 0x69, 0x70, 0x5F, 0x65, 0x78,
      0x74, 0x72, 0x61, 0x63, 0x74, 0x65, 0x64, 0x3B, 0x75, 0x6E, 0x7A, 0x69, 0x70, 0x20, 0x2D,
      0x71, 0x6F, 0x20, 0x22, 0x24, 0x30, 0x22, 0x3B, 0x63, 0x6C, 0x65, 0x61, 0x72, 0x3B, 0x22,
      0x22, 0x3B, 0x65, 0x78, 0x69, 0x74, 0x3B, 0x0D, 0x0A, 0x23, 0x26, 0x63, 0x6C, 0x73, 0x26,
      0x6D, 0x6B, 0x64, 0x69, 0x72, 0x20, 0x2E, 0x5C, 0x70, 0x64, 0x76, 0x7A, 0x69, 0x70, 0x5F,
      0x65, 0x78, 0x74, 0x72, 0x61, 0x63, 0x74, 0x65, 0x64, 0x26, 0x6D, 0x6F, 0x76, 0x65, 0x20,
      0x22, 0x25, 0x7E, 0x64, 0x70, 0x6E, 0x78, 0x30, 0x22, 0x20, 0x2E, 0x5C, 0x70, 0x64, 0x76,
      0x7A, 0x69, 0x70, 0x5F, 0x65, 0x78, 0x74, 0x72, 0x61, 0x63, 0x74, 0x65, 0x64, 0x26, 0x63,
      0x64, 0x20, 0x2E, 0x5C, 0x70, 0x64, 0x76, 0x7A, 0x69, 0x70, 0x5F, 0x65, 0x78, 0x74, 0x72,
      0x61, 0x63, 0x74, 0x65, 0x64, 0x26, 0x63, 0x6C, 0x73, 0x26, 0x74, 0x61, 0x72, 0x20, 0x2D,
      0x78, 0x66, 0x20, 0x22, 0x25, 0x7E, 0x6E, 0x30, 0x25, 0x7E, 0x78, 0x30, 0x22, 0x26, 0x20,
      0x22, 0x22, 0x26, 0x72, 0x65, 0x6E, 0x20, 0x22, 0x25, 0x7E, 0x6E, 0x30, 0x25, 0x7E, 0x78,
      0x30, 0x22, 0x20, 0x2A, 0x2E, 0x70, 0x6E, 0x67, 0x26, 0x65, 0x78, 0x69, 0x74, 0x0D, 0x0A,
      0x00, 0x00, 0x00, 0x00]"

definition App_Vec_init :: "byte list list" where
  "App_Vec_init = map bytes_of
     [''aac'', ''mp3'', ''mp4'', ''avi'', ''asf'', ''flv'', ''ebm'', ''mkv'', ''peg'', ''wav'',
      ''wmv'', ''wma'', ''mov'', ''3gp'', ''ogg'', ''pdf'', ''.py'', ''ps1'', ''exe'',
      ''.sh'', ''vlc --play-and-exit --no-video-title-show '', ''evince '', ''python3 '',
      ''pwsh '', ''./'', ''xdg-open '', ''powershell;Invoke-Item '',
      '' &> /dev/null'', ''start /b '' @ [CHR 0x22, CHR 0x22], ''pause&'', ''powershell'',
      ''chmod +x '', '';'']"

definition Sequence_Vec_init :: "nat list" where
  "Sequence_Vec_init =
     [241, 239, 121, 120, 119,
      33, 28, 27, 33, 20,
      241, 239, 120, 119,
      33, 28, 33, 21,
      264, 242, 241, 239, 121, 120, 119,
      29, 35, 33, 22, 34, 33, 22,
      264, 242, 241, 239, 121, 120, 119, 119, 119, 119,
      29, 35, 33, 28, 34, 33, 24, 32, 33, 31]"

definition VIDEO_AUDIO :: nat where "VIDEO_AUDIO = 20"
definition PDF :: nat where "PDF = 21"
definition PYTHON :: nat where "PYTHON = 22"
definition POWERSHELL :: nat where "POWERSHELL = 23"
definition EXECUTABLE :: nat where "EXECUTABLE = 24"
definition BASH_XDG_OPEN :: nat where "BASH_XDG_OPEN = 25"
definition FOLDER_INVOKE_ITEM :: nat where "FOLDER_INVOKE_ITEM = 26"
definition START_B :: nat where "START_B = 28"
definition WIN_POWERSHELL :: nat where "WIN_POWERSHELL = 30"
definition PREPEND_FIRST_ZIP_NAME_REC :: nat where "PREPEND_FIRST_ZIP_NAME_REC = 36"

text \<open>\<^verbatim>\<open>std::string::find_last_of\<close>, with \<^verbatim>\<open>npos\<close> the largest \<^verbatim>\<open>size_t\<close>.\<close>

definition npos :: nat where
  "npos = 2 ^ 64 - 1"

definition find_last_of :: "byte list \<Rightarrow> byte \<Rightarrow> nat" where
  "find_last_of s c =
     (if c \<in> set s then length s - 1 - length (takeWhile (\<lambda>x. x \<noteq> c) (rev s)) else npos)"

text \<open>The loop \<^verbatim>\<open>for (; app_index != 26; app_index++)\<close> that matches the extension.\<close>

function match_extension :: "byte list list \<Rightarrow> byte list \<Rightarrow> nat \<Rightarrow> error + nat" where
  "match_extension App_Vec first_zip_name_ext app_index =
     (if app_index = 26 then Inr app_index
      else if length App_Vec \<le> app_index then Inl Out_Of_Range
      else if App_Vec ! app_index = first_zip_name_ext
      then Inr (if app_index \<le> 14 then 20 else app_index + 6)
      else match_extension App_Vec first_zip_name_ext (app_index + 1))"
  by pat_completeness auto
termination
  by (relation "measure (\<lambda>(av, ext, i). length av - i)") auto

declare match_extension.simps [simp del]

text \<open>
  The \<^verbatim>\<open>switch (app_index)\<close>: it returns the updated \<^verbatim>\<open>App_Vec\<close> and
  \<^verbatim>\<open>Sequence_Vec\<close>, and the new \<^verbatim>\<open>insert_index\<close> and \<^verbatim>\<open>app_index\<close>.
\<close>

definition select_sequence ::
  "nat \<Rightarrow> byte list list \<Rightarrow> byte list \<Rightarrow> byte list list \<times> nat list \<times> nat \<times> nat" where
  "select_sequence app_index App_Vec first_zip_name =
     (if app_index = VIDEO_AUDIO then (App_Vec, Sequence_Vec_init, 0, 5)
      else if app_index = PDF \<or> app_index = FOLDER_INVOKE_ITEM then
        (App_Vec,
         Sequence_Vec_init
           [15 := (if app_index = FOLDER_INVOKE_ITEM then FOLDER_INVOKE_ITEM else START_B),
            17 := (if app_index = FOLDER_INVOKE_ITEM then BASH_XDG_OPEN else PDF)],
         10, 14)
      else if app_index = PYTHON \<or> app_index = POWERSHELL then
        (if app_index = POWERSHELL
         then (App_Vec @ [[0x2E, 0x5C] @ first_zip_name],
               Sequence_Vec_init
                 [31 := POWERSHELL, 28 := WIN_POWERSHELL, 27 := PREPEND_FIRST_ZIP_NAME_REC],
               18, 25)
         else (App_Vec, Sequence_Vec_init, 18, 25))
      else if app_index = EXECUTABLE \<or> app_index = BASH_XDG_OPEN then
        (let insert_index = (if app_index = EXECUTABLE then 32 else 33)
         in (App_Vec, Sequence_Vec_init, insert_index, if insert_index = 32 then 42 else 43))
      else (App_Vec, Sequence_Vec_init[17 := BASH_XDG_OPEN], 10, 14))"

text \<open>The loop \<^verbatim>\<open>while (sequence_limit > insert_index)\<close> that inserts the strings.\<close>

function insert_strings ::
  "byte list \<Rightarrow> byte list list \<Rightarrow> nat list \<Rightarrow> nat \<Rightarrow> nat \<Rightarrow> nat \<Rightarrow> error + byte list" where
  "insert_strings Script App_Vec Sequence_Vec sequence_limit insert_index app_index =
     (if sequence_limit > insert_index then
        (if length Sequence_Vec \<le> insert_index \<or> length Sequence_Vec \<le> app_index
            \<or> length App_Vec \<le> Sequence_Vec ! app_index
            \<or> length Script < Sequence_Vec ! insert_index
         then Inl Out_Of_Range
         else insert_strings
                (insert_at Script (Sequence_Vec ! insert_index) (App_Vec ! (Sequence_Vec ! app_index)))
                App_Vec Sequence_Vec sequence_limit (insert_index + 1) (app_index + 1))
      else Inr Script)"
  by pat_completeness auto
termination
  by (relation "measure (\<lambda>(s, av, sv, lim, i, a). lim - i)") auto

declare insert_strings.simps [simp del]

text \<open>
  The first part of \<^verbatim>\<open>Complete_Extraction_Script\<close>, up to the end of the insertion loop:
  the script with the launcher strings inserted. \<open>args_linux\<close> and \<open>args_windows\<close> are the
  two lines the user types when prompted.
\<close>

definition compose_script :: "byte list \<Rightarrow> byte list \<Rightarrow> byte list \<Rightarrow> error + byte list" where
  "compose_script Zip args_linux args_windows =
     (let FIRST_ZIP_NAME_REC_LENGTH_INDEX = 34;
          FIRST_ZIP_NAME_REC_INDEX = 38
      in if length Zip \<le> FIRST_ZIP_NAME_REC_LENGTH_INDEX then Inl Out_Of_Range
         else
           let FIRST_ZIP_NAME_REC_LENGTH = unat (Zip ! FIRST_ZIP_NAME_REC_LENGTH_INDEX)
           in if length Zip < FIRST_ZIP_NAME_REC_INDEX + FIRST_ZIP_NAME_REC_LENGTH
                 \<or> FIRST_ZIP_NAME_REC_LENGTH < 3
              then Inl Out_Of_Range
              else
                let first_zip_name = slice Zip FIRST_ZIP_NAME_REC_INDEX FIRST_ZIP_NAME_REC_LENGTH;
                    first_zip_name_ext = slice first_zip_name (length first_zip_name - 3) 3;
                    CHECK_FILE_EXT = find_last_of first_zip_name 0x2E;
                    App_Vec = App_Vec_init @ [first_zip_name]
                in case match_extension App_Vec first_zip_name_ext 0 of
                     Inl e \<Rightarrow> Inl e
                   | Inr app_index0 \<Rightarrow>
                       let app_index =
                             (if CHECK_FILE_EXT = 0 \<or> CHECK_FILE_EXT > length first_zip_name
                              then (if Zip ! (FIRST_ZIP_NAME_REC_INDEX + FIRST_ZIP_NAME_REC_LENGTH - 1) = 0x2F
                                    then FOLDER_INVOKE_ITEM else EXECUTABLE)
                              else app_index0);
                           App_Vec1 =
                             (if app_index > 21 \<and> app_index < 26
                              then App_Vec @ [[0x20] @ args_linux, [0x20] @ args_windows]
                              else App_Vec)
                       in (case select_sequence app_index App_Vec1 first_zip_name of
                             (App_Vec2, Sequence_Vec, insert_index, app_index') \<Rightarrow>
                               let sequence_limit =
                                     (if insert_index = 33 then app_index' - 1 else app_index')
                               in insert_strings Script_Template App_Vec2 Sequence_Vec
                                    sequence_limit insert_index app_index'))"

text \<open>
  The second part: the length field, the padding against a forbidden length byte, the
  size limits and the CRC of the \<^verbatim>\<open>iCCP\<close> chunk.
\<close>

definition finish_script :: "PDV_STRUCT \<Rightarrow> error + PDV_STRUCT" where
  "finish_script pdv =
     (let pdv1 = pdv\<lparr>script_size := length (Script_Vec pdv)\<rparr>;
          chunk_length_index = 2
      in case Value_Updater (Script_Vec pdv1) chunk_length_index (script_size pdv1 - 12) 16
                (big_endian pdv1) of
           Inl e \<Rightarrow> Inl e
         | Inr vec1 \<Rightarrow>
             (case (if vec1 ! 3 \<in> set BAD_CHAR
                    then (let vec2 = insert_at vec1 (script_size pdv1 - 4) (bytes_of ''..........'')
                          in case Value_Updater vec2 chunk_length_index (length vec2 - 12) 16
                                    (big_endian pdv1) of
                               Inl e \<Rightarrow> Inl e
                             | Inr vec3 \<Rightarrow> Inr (pdv1\<lparr>Script_Vec := vec3, script_size := length vec2\<rparr>))
                    else Inr (pdv1\<lparr>Script_Vec := vec1\<rparr>)) of
                Inl e \<Rightarrow> Inl e
              | Inr pdv2 \<Rightarrow>
                  let pdv3 = pdv2\<lparr>combined_file_size :=
                               length (Script_Vec pdv2) + length (Image_Vec pdv2) + length (Zip_Vec pdv2)\<rparr>;
                      MAX_SCRIPT_SIZE = 750;
                      ICCP_CHUNK_INDEX = 4
                  in if script_size pdv3 > MAX_SCRIPT_SIZE then Inl File_Size_Error_Script_Exceeds
                     else if combined_file_size pdv3 > MAX_FILE_SIZE then Inl File_Size_Error_Total_Exceeds
                     else
                       let ICCP_CHUNK_CRC =
                             unat (Crc (slice (Script_Vec pdv3) ICCP_CHUNK_INDEX (script_size pdv3 - 8)));
                           iccp_crc_index = script_size pdv3 - 4
                       in case Value_Updater (Script_Vec pdv3) iccp_crc_index ICCP_CHUNK_CRC 32
                                 (big_endian pdv3) of
                            Inl e \<Rightarrow> Inl e
                          | Inr vec4 \<Rightarrow> Inr (pdv3\<lparr>Script_Vec := vec4\<rparr>)))"

definition Complete_Extraction_Script ::
  "PDV_STRUCT \<Rightarrow> byte list \<Rightarrow> byte list \<Rightarrow> error + byte list" where
  "Complete_Extraction_Script pdv args_linux args_windows =
     (case compose_script (Zip_Vec pdv) args_linux args_windows of
        Inl e \<Rightarrow> Inl e
      | Inr script \<Rightarrow>
          (case finish_script (pdv\<lparr>Script_Vec := script\<rparr>) of
             Inl e \<Rightarrow> Inl e
           | Inr pdv' \<Rightarrow> Combine_Vectors pdv'))"

section \<open>ZIP validator and framer\<close>

definition frame_zip :: "byte list \<Rightarrow> bool \<Rightarrow> error + byte list" where
  "frame_zip zip_ifs big_end =
     (let vec = insert_at [0x00, 0x00, 0x00, 0x00, 0x49, 0x44, 0x41, 0x54, 0x00, 0x00, 0x00, 0x00]
                  8 zip_ifs;
          chunk_length_index = 0
      in Value_Updater vec chunk_length_index (length vec - 12) 32 big_end)"

definition Check_Zip_File ::
  "PDV_STRUCT \<Rightarrow> byte list \<Rightarrow> byte list \<Rightarrow> byte list \<Rightarrow> error + byte list" where
  "Check_Zip_File pdv zip_ifs args_linux args_windows =
     (case frame_zip zip_ifs (big_endian pdv) of
        Inl e \<Rightarrow> Inl e
      | Inr vec \<Rightarrow>
          let pdv1 = pdv\<lparr>Zip_Vec := vec, zip_size := length vec\<rparr>;
              MIN_INZIP_NAME_LENGTH = 4
          in if length vec \<le> 34 then Inl Out_Of_Range
             else
               let GET_ZIP_SIG = slice vec 8 (length ZIP_SIG);
                   INZIP_NAME_LENGTH = unat (vec ! 34)
               in if GET_ZIP_SIG \<noteq> ZIP_SIG then Inl Zip_File_Error_Not_Zip
                  else if MIN_INZIP_NAME_LENGTH > INZIP_NAME_LENGTH then Inl Zip_File_Error_Name_Too_Short
                  else Complete_Extraction_Script pdv1 args_linux args_windows)"

section \<open>PNG validator and pruner\<close>

definition IDAT_SIG :: "byte list" where
  "IDAT_SIG = bytes_of ''IDAT''"

definition PLTE_SIG :: "byte list" where
  "PLTE_SIG = bytes_of ''PLTE''"

text \<open>The loop \<^verbatim>\<open>while (pdv.image_size != idat_index + 4)\<close> that copies the IDAT chunks.\<close>

function copy_idat_chunks :: "byte list \<Rightarrow> nat \<Rightarrow> nat \<Rightarrow> byte list \<Rightarrow> error + byte list" where
  "copy_idat_chunks Img image_sz idat_index Temp_Vec =
     (if image_sz = idat_index + 4 then Inr Temp_Vec
      else if length Img < idat_index + 4 then Inl Out_Of_Range
      else
        let CHUNK_SIZE = get_u32_be Img idat_index
        in if length Img < idat_index + (CHUNK_SIZE + 12) then Inl Out_Of_Range
           else copy_idat_chunks Img image_sz
                  (search_from Img (idat_index + 6) IDAT_SIG - 4)
                  (Temp_Vec @ slice Img idat_index (CHUNK_SIZE + 12)))"
  by pat_completeness auto
termination
proof (relation "measure (\<lambda>(Img, sz, idx, tmp). length Img - idx)", goal_cases)
  case 1
  show ?case by simp
next
  case (2 Img image_sz idat_index Temp_Vec x)
  have "idat_index + 6 \<le> search_from Img (idat_index + 6) IDAT_SIG"
    by (simp add: search_from_def)
  with 2 show ?case by simp
qed

declare copy_idat_chunks.simps [simp del]

text \<open>
  The body of \<^verbatim>\<open>Erase_Image_Chunks\<close>: from the image and \<^verbatim>\<open>pdv.image_size\<close> to
  \<^verbatim>\<open>Temp_Vec\<close>, the vector that replaces the image.
\<close>

definition prune_image :: "byte list \<Rightarrow> nat \<Rightarrow> error + byte list" where
  "prune_image Img image_sz =
     (if length Img < 33 then Inl Out_Of_Range
      else
        let Temp_Vec = take 33 Img;
            idat_pos = search_from Img 0 IDAT_SIG
        in if idat_pos < 4 then Inl Out_Of_Range
           else
             let idat_index = idat_pos - 4;
                 FIRST_IDAT_LENGTH = get_u32_be Img idat_index;
                 FIRST_IDAT_CRC_INDEX = idat_index + FIRST_IDAT_LENGTH + 8
             in if length Img < FIRST_IDAT_CRC_INDEX + 4 then Inl Out_Of_Range
                else
                  let FIRST_IDAT_CRC = get_u32_be Img FIRST_IDAT_CRC_INDEX;
                      CALC_FIRST_IDAT_CRC = unat (Crc (slice Img (idat_index + 4) (FIRST_IDAT_LENGTH + 4)))
                  in if FIRST_IDAT_CRC \<noteq> CALC_FIRST_IDAT_CRC then Inl Image_File_Error_Idat_Crc
                     else
                       (case (if Temp_Vec ! 25 = 3 then
                                (let plte_pos = search_from Img 0 PLTE_SIG
                                 in if plte_pos < 4 then Inl Out_Of_Range
                                    else
                                      let PLTE_CHUNK_INDEX = plte_pos - 4
                                      in if idat_index > PLTE_CHUNK_INDEX then
                                           (let CHUNK_SIZE = get_u24_be Img (PLTE_CHUNK_INDEX + 1)
                                            in if length Img < PLTE_CHUNK_INDEX + (CHUNK_SIZE + 12)
                                               then Inl Out_Of_Range
                                               else Inr (Temp_Vec @ slice Img PLTE_CHUNK_INDEX (CHUNK_SIZE + 12)))
                                         else Inl Image_File_Error_Plte_Missing)
                              else Inr Temp_Vec) of
                          Inl e \<Rightarrow> Inl e
                        | Inr Temp_Vec1 \<Rightarrow>
                            (case copy_idat_chunks Img image_sz idat_index Temp_Vec1 of
                               Inl e \<Rightarrow> Inl e
                             | Inr Temp_Vec2 \<Rightarrow> Inr (Temp_Vec2 @ drop (length Img - 12) Img))))"

definition Erase_Image_Chunks ::
  "PDV_STRUCT \<Rightarrow> byte list \<Rightarrow> byte list \<Rightarrow> byte list \<Rightarrow> error + byte list" where
  "Erase_Image_Chunks pdv zip_ifs args_linux args_windows =
     (case prune_image (Image_Vec pdv) (image_size pdv) of
        Inl e \<Rightarrow> Inl e
      | Inr Temp_Vec \<Rightarrow>
          Check_Zip_File (pdv\<lparr>Image_Vec := Temp_Vec, image_size := length Temp_Vec\<rparr>)
            zip_ifs args_linux args_windows)"

definition PNG_TOP_SIG :: "byte list" where
  "PNG_TOP_SIG = [0x89, 0x50, 0x4E, 0x47]"

definition PNG_END_SIG :: "byte list" where
  "PNG_END_SIG = [0x49, 0x45, 0x4E, 0x44, 0xAE, 0x42, 0x60, 0x82]"

text \<open>The loop \<^verbatim>\<open>while (chunk_index++ != 32)\<close> over the bytes of the IHDR chunk.\<close>

function IHDR_bad_char_scan :: "byte list \<Rightarrow> nat \<Rightarrow> error + unit" where
  "IHDR_bad_char_scan Img chunk_index =
     (if chunk_index = 32 then Inr ()
      else if length Img \<le> chunk_index + 1 then Inl Out_Of_Range
      else if Img ! (chunk_index + 1) \<in> set BAD_CHAR then Inl Image_File_Error_Bad_Char
      else IHDR_bad_char_scan Img (chunk_index + 1))"
  by pat_completeness auto
termination
  by (relation "measure (\<lambda>(Img, i). length Img - i)") auto

declare IHDR_bad_char_scan.simps [simp del]

definition IMAGE_WIDTH_DIMS :: "byte list \<Rightarrow> nat" where
  "IMAGE_WIDTH_DIMS Img = get_u16 (Img ! 18) (Img ! 19)"

definition IMAGE_HEIGHT_DIMS :: "byte list \<Rightarrow> nat" where
  "IMAGE_HEIGHT_DIMS Img = get_u16 (Img ! 22) (Img ! 23)"

definition PNG_COLOR_TYPE :: "byte list \<Rightarrow> nat" where
  "PNG_COLOR_TYPE Img = (if Img ! 25 = 6 then 2 else unat (Img ! 25))"

definition VALID_COLOR_TYPE :: "byte list \<Rightarrow> bool" where
  "VALID_COLOR_TYPE Img =
     (let PNG_INDEXED_COLOR = 3; PNG_TRUECOLOR = 2
      in if PNG_COLOR_TYPE Img = PNG_INDEXED_COLOR then True
         else if PNG_COLOR_TYPE Img = PNG_TRUECOLOR then True else False)"

definition VALID_IMAGE_DIMS :: "byte list \<Rightarrow> bool" where
  "VALID_IMAGE_DIMS Img =
     (let MAX_TRUECOLOR_DIMS = 899; MAX_INDEXED_COLOR_DIMS = 4096; MIN_DIMS = 68;
          PNG_INDEXED_COLOR = 3; PNG_TRUECOLOR = 2
      in if PNG_COLOR_TYPE Img = PNG_TRUECOLOR
            \<and> MAX_TRUECOLOR_DIMS \<ge> IMAGE_WIDTH_DIMS Img
            \<and> MAX_TRUECOLOR_DIMS \<ge> IMAGE_HEIGHT_DIMS Img
            \<and> IMAGE_WIDTH_DIMS Img \<ge> MIN_DIMS
            \<and> IMAGE_HEIGHT_DIMS Img \<ge> MIN_DIMS then True
         else if PNG_COLOR_TYPE Img = PNG_INDEXED_COLOR
            \<and> MAX_INDEXED_COLOR_DIMS \<ge> IMAGE_WIDTH_DIMS Img
            \<and> MAX_INDEXED_COLOR_DIMS \<ge> IMAGE_HEIGHT_DIMS Img
            \<and> IMAGE_WIDTH_DIMS Img \<ge> MIN_DIMS
            \<and> IMAGE_HEIGHT_DIMS Img \<ge> MIN_DIMS then True
         else False)"

text \<open>The checks of \<^verbatim>\<open>Check_Image_File\<close>, before it calls \<^verbatim>\<open>Erase_Image_Chunks\<close>.\<close>

definition check_image :: "byte list \<Rightarrow> error + unit" where
  "check_image Img =
     (if length Img < length PNG_END_SIG then Inl Out_Of_Range
      else
        let GET_PNG_TOP_SIG = take (length PNG_TOP_SIG) Img;
            GET_PNG_END_SIG = drop (length Img - length PNG_END_SIG) Img
        in if GET_PNG_TOP_SIG \<noteq> PNG_TOP_SIG \<or> GET_PNG_END_SIG \<noteq> PNG_END_SIG
           then Inl Image_File_Error_Not_Png
           else
             (case IHDR_bad_char_scan Img 18 of
                Inl e \<Rightarrow> Inl e
              | Inr u \<Rightarrow>
                  if \<not> VALID_COLOR_TYPE Img \<or> \<not> VALID_IMAGE_DIMS Img
                  then Inl (if \<not> VALID_COLOR_TYPE Img then Image_File_Error_Color_Type
                            else Image_File_Error_Dims)
                  else Inr ()))"

definition Check_Image_File ::
  "PDV_STRUCT \<Rightarrow> byte list \<Rightarrow> byte list \<Rightarrow> byte list \<Rightarrow> byte list \<Rightarrow> error + byte list" where
  "Check_Image_File pdv image_ifs zip_ifs args_linux args_windows =
     (let pdv1 = pdv\<lparr>Image_Vec := image_ifs, image_size := length image_ifs\<rparr>
      in case check_image (Image_Vec pdv1) of
           Inl e \<Rightarrow> Inl e
         | Inr u \<Rightarrow> Erase_Image_Chunks pdv1 zip_ifs args_linux args_windows)"

section \<open>Opening the files\<close>

text \<open>
  The initial size check of \<^verbatim>\<open>Open_Files\<close> on the two file sizes: \<open>None\<close> when it
  passes, the diagnostic when it fails.
\<close>

definition file_size_check :: "nat \<Rightarrow> nat \<Rightarrow> error option" where
  "file_size_check image_sz zip_sz =
     (let MIN_IMAGE_SIZE = 68; MIN_ZIP_SIZE = 40;
          combined = image_sz + zip_sz;
          file_size_check = (image_sz > MIN_IMAGE_SIZE \<and> zip_sz > MIN_ZIP_SIZE
                               \<and> MAX_FILE_SIZE \<ge> combined)
      in if \<not> file_size_check
         then Some (if MIN_IMAGE_SIZE > image_sz then File_Size_Error_Png_Too_Small
                    else if MIN_ZIP_SIZE > zip_sz then File_Size_Error_Zip_Too_Small
                    else File_Size_Error_Combined_Exceeds)
         else None)"

text \<open>
  \<open>Open_Files\<close> gets the contents of the two files, \<open>None\<close> for a file that cannot be
  opened.
\<close>

definition Open_Files ::
  "PDV_STRUCT \<Rightarrow> byte list option \<Rightarrow> byte list option \<Rightarrow> byte list \<Rightarrow> byte list \<Rightarrow> error + byte list" where
  "Open_Files pdv image_ifs zip_ifs args_linux args_windows =
     (case image_ifs of
        None \<Rightarrow> Inl Read_File_Error_Image
      | Some img \<Rightarrow>
          (case zip_ifs of
             None \<Rightarrow> Inl Read_File_Error_Zip
           | Some zipf \<Rightarrow>
               let pdv1 = pdv\<lparr>image_size := length img, zip_size := length zipf\<rparr>;
                   pdv2 = pdv1\<lparr>combined_file_size := image_size pdv1 + zip_size pdv1\<rparr>
               in case file_size_check (image_size pdv2) (zip_size pdv2) of
                    Some e \<Rightarrow> Inl e
                  | None \<Rightarrow> Check_Image_File pdv2 img zipf args_linux args_windows))"

section \<open>Command line\<close>

text \<open>
  The regular expression of \<^verbatim>\<open>main\<close>, matched against a whole string as
  \<^verbatim>\<open>std::regex_match\<close> does, by derivatives.
\<close>

datatype rexp =
    Nothing
  | Empty
  | Class "char \<Rightarrow> bool"
  | Alt rexp rexp
  | Seq rexp rexp
  | Plus rexp

fun nullable :: "rexp \<Rightarrow> bool" where
  "nullable Nothing = False"
| "nullable Empty = True"
| "nullable (Class p) = False"
| "nullable (Alt r s) = (nullable r \<or> nullable s)"
| "nullable (Seq r s) = (nullable r \<and> nullable s)"
| "nullable (Plus r) = nullable r"

fun deriv :: "char \<Rightarrow> rexp \<Rightarrow> rexp" where
  "deriv c Nothing = Nothing"
| "deriv c Empty = Nothing"
| "deriv c (Class p) = (if p c then Empty else Nothing)"
| "deriv c (Alt r s) = Alt (deriv c r) (deriv c s)"
| "deriv c (Seq r s) =
     (if nullable r then Alt (Seq (deriv c r) s) (deriv c s) else Seq (deriv c r) s)"
| "deriv c (Plus r) = Seq (deriv c r) (Alt Empty (Plus r))"

definition regex_match :: "string \<Rightarrow> rexp \<Rightarrow> bool" where
  "regex_match s r = nullable (foldl (\<lambda>r c. deriv c r) r s)"

definition Optional :: "rexp \<Rightarrow> rexp" where
  "Optional r = Alt r Empty"

definition in_range :: "char \<Rightarrow> char \<Rightarrow> char \<Rightarrow> bool" where
  "in_range lo hi c = ((of_char lo :: nat) \<le> of_char c \<and> (of_char c :: nat) \<le> of_char hi)"

text \<open>\<^verbatim>\<open>\s\<close>: space, tab, line feed, vertical tab, form feed, carriage return.\<close>

definition is_space :: "char \<Rightarrow> bool" where
  "is_space c = (c = CHR '' '' \<or> in_range (CHR 0x09) (CHR 0x0D) c)"

text \<open>\<^verbatim>\<open>[a-zA-Z_0-9\.\\\s\-\/]\<close>\<close>

definition path_char :: "char \<Rightarrow> bool" where
  "path_char c =
     (in_range CHR ''a'' CHR ''z'' c \<or> in_range CHR ''A'' CHR ''Z'' c \<or> c = CHR ''_''
      \<or> in_range CHR ''0'' CHR ''9'' c \<or> c = CHR ''.'' \<or> c = CHR 0x5C \<or> is_space c
      \<or> c = CHR ''-'' \<or> c = CHR ''/'')"

text \<open>\<^verbatim>\<open>[a-zA-Z0-9]\<close>\<close>

definition alnum_char :: "char \<Rightarrow> bool" where
  "alnum_char c =
     (in_range CHR ''a'' CHR ''z'' c \<or> in_range CHR ''A'' CHR ''Z'' c \<or> in_range CHR ''0'' CHR ''9'' c)"

text \<open>\<^verbatim>\<open>(\.[a-zA-Z_0-9\.\\\s\-\/]+)?[a-zA-Z_0-9\.\\\s\-\/]+?(\.[a-zA-Z0-9]+)?\<close>\<close>

definition REG_EXP :: rexp where
  "REG_EXP =
     Seq (Optional (Seq (Class (\<lambda>c. c = CHR ''.'')) (Plus (Class path_char))))
       (Seq (Plus (Class path_char))
          (Optional (Seq (Class (\<lambda>c. c = CHR ''.'')) (Plus (Class alnum_char)))))"

text \<open>
  What \<^verbatim>\<open>main\<close> does with its arguments (\<open>argv\<close> with the program name first): it
  shows the help page, prints the usage line, exits with a diagnostic, or calls
  \<^verbatim>\<open>Open_Files\<close> with the two names stored in the structure.
\<close>

datatype main_outcome =
    Display_Info
  | Usage
  | Exit_Failure error
  | Call_Open_Files string string

definition GET_EXT :: "string \<Rightarrow> string" where
  "GET_EXT name = (if length name > 2 then drop (length name - 3) name else name)"

definition main :: "string list \<Rightarrow> main_outcome" where
  "main argv =
     (let argc = length argv
      in if argc = 2 \<and> argv ! 1 = ''--info'' then Display_Info
         else if argc < 3 \<or> argc > 3 then Usage
         else
           let image_nm = argv ! 1;
               zip_nm = argv ! 2;
               GET_PNG_EXT = GET_EXT image_nm;
               GET_ZIP_EXT = GET_EXT zip_nm
           in if GET_PNG_EXT \<noteq> ''png'' \<or> GET_ZIP_EXT \<noteq> ''zip''
                 \<or> \<not> regex_match image_nm REG_EXP \<or> \<not> regex_match zip_nm REG_EXP
              then Exit_Failure (if GET_PNG_EXT \<noteq> ''png'' \<or> GET_ZIP_EXT \<noteq> ''zip''
                                 then File_Type_Error else Invalid_Input_Error)
              else Call_Open_Files image_nm zip_nm)"

text \<open>
  The whole run on the contents of the two files: \<open>pdv0\<close> is the freshly constructed
  structure.
\<close>

definition pdv0 :: PDV_STRUCT where
  "pdv0 = \<lparr>Image_Vec = [], Zip_Vec = [], Script_Vec = [], image_name = [], zip_name = [],
          image_size = 0, zip_size = 0, script_size = 0, combined_file_size = 0,
          big_endian = True\<rparr>"

definition build :: "byte list \<Rightarrow> byte list \<Rightarrow> byte list \<Rightarrow> byte list \<Rightarrow> error + byte list" where
  "build img zipf args_linux args_windows =
     Open_Files pdv0 (Some img) (Some zipf) args_linux args_windows"

section \<open>Notions used in the statements\<close>

text \<open>
  The name of the first entry of the framed archive, as the script composer reads it: the
  bytes from index 38, as many as the byte at index 34 says.
\<close>

definition first_zip_name_of :: "byte list \<Rightarrow> byte list" where
  "first_zip_name_of Zip = slice Zip 38 (unat (Zip ! 34))"

text \<open>The bytes of a 16-bit and of a 32-bit field, most significant first.\<close>

definition be_bytes16 :: "nat \<Rightarrow> byte list" where
  "be_bytes16 v = [of_nat (v div 2 ^ 8 mod 256), of_nat (v mod 256)]"

definition be_bytes32 :: "nat \<Rightarrow> byte list" where
  "be_bytes32 v =
     [of_nat (v div 2 ^ 24 mod 256), of_nat (v div 2 ^ 16 mod 256),
      of_nat (v div 2 ^ 8 mod 256), of_nat (v mod 256)]"

text \<open>
  The positions of the first \<open>n\<close> local-file signatures of a buffer from a position on,
  each searched after the one before, and the positions of the first \<open>n\<close>
  central-directory signatures, each searched after the 46 bytes of the fixed part of the
  entry before.
\<close>

fun local_positions :: "byte list \<Rightarrow> nat \<Rightarrow> nat \<Rightarrow> nat list" where
  "local_positions vec first 0 = []"
| "local_positions vec first (Suc n) =
     search_from vec first ZIP_SIG # local_positions vec (search_from vec first ZIP_SIG + 1) n"

fun central_positions :: "byte list \<Rightarrow> nat \<Rightarrow> nat \<Rightarrow> nat list" where
  "central_positions vec first 0 = []"
| "central_positions vec first (Suc n) =
     search_from vec first START_CENTRAL_DIR_SIG
       # central_positions vec (search_from vec first START_CENTRAL_DIR_SIG + 46) n"

text \<open>
  A buffer is regular for the fixer, called with the index \<open>idx\<close>, when the signatures
  that the linear searches find in it are those of the records of a well-formed archive:
  the first central-directory signature lies after \<open>idx\<close>; the end record, found after
  it, lies with its 22 bytes in the buffer; the local-file signatures, as many as the end
  record counts at its offsets 10 and 11, lie before the central directory; and the
  central-directory entries, as many, lie with their 46 fixed bytes before the end record.
  The buffer is shorter than \<open>0x50000000\<close> bytes, so that no offset ends in the byte
  with which a signature starts.
\<close>

definition regular_buffer :: "byte list \<Rightarrow> nat \<Rightarrow> bool" where
  "regular_buffer vec idx =
     (let S = START_CENTRAL_DIR_INDEX vec idx;
          E = END_CENTRAL_DIR_INDEX vec idx;
          n = read_le (slice vec (E + 10) 2)
      in idx < S \<and> E + 22 \<le> length vec \<and> length vec < 1342177280
         \<and> list_all (\<lambda>p. p + 4 \<le> S) (local_positions vec (idx + 1) n)
         \<and> list_all (\<lambda>c. c + 46 \<le> E) (central_positions vec S n))"

text \<open>
  An archive is regular when, taken alone, it has these properties: the end record,
  found after the first central-directory signature, lies with its 22 bytes in the
  archive; the local-file signatures, as many as the end record counts, lie before the
  central directory; and the central-directory entries, as many, lie with their 46 fixed
  bytes before the end record.
\<close>

definition regular_archive :: "byte list \<Rightarrow> bool" where
  "regular_archive zipf =
     (let S = search_from zipf 0 START_CENTRAL_DIR_SIG;
          E = search_from zipf S END_CENTRAL_DIR_SIG;
          n = read_le (slice zipf (E + 10) 2)
      in E + 22 \<le> length zipf
         \<and> list_all (\<lambda>p. p + 4 \<le> S) (local_positions zipf 0 n)
         \<and> list_all (\<lambda>c. c + 46 \<le> E) (central_positions zipf S n))"

section \<open>The CRC table in rows\<close>

text \<open>The 256 entries of \<open>Crc_Table\<close> in 16 rows of 16, for looking an entry up in few steps.\<close>

definition Crc_Row_0 :: "64 word list" where
  "Crc_Row_0 =
     [0x00, 0x77073096, 0xEE0E612C, 0x990951BA, 0x76DC419, 0x706AF48F, 0xE963A535, 0x9E6495A3,
      0xEDB8832, 0x79DCB8A4, 0xE0D5E91E, 0x97D2D988, 0x9B64C2B, 0x7EB17CBD, 0xE7B82D07, 0x90BF1D91]"

definition Crc_Row_1 :: "64 word list" where
  "Crc_Row_1 =
     [0x1DB71064, 0x6AB020F2, 0xF3B97148, 0x84BE41DE, 0x1ADAD47D, 0x6DDDE4EB, 0xF4D4B551, 0x83D385C7,
      0x136C9856, 0x646BA8C0, 0xFD62F97A, 0x8A65C9EC, 0x14015C4F, 0x63066CD9, 0xFA0F3D63, 0x8D080DF5]"

definition Crc_Row_2 :: "64 word list" where
  "Crc_Row_2 =
     [0x3B6E20C8, 0x4C69105E, 0xD56041E4, 0xA2677172, 0x3C03E4D1, 0x4B04D447, 0xD20D85FD, 0xA50AB56B,
      0x35B5A8FA, 0x42B2986C, 0xDBBBC9D6, 0xACBCF940, 0x32D86CE3, 0x45DF5C75, 0xDCD60DCF, 0xABD13D59]"

definition Crc_Row_3 :: "64 word list" where
  "Crc_Row_3 =
     [0x26D930AC, 0x51DE003A, 0xC8D75180, 0xBFD06116, 0x21B4F4B5, 0x56B3C423, 0xCFBA9599, 0xB8BDA50F,
      0x2802B89E, 0x5F058808, 0xC60CD9B2, 0xB10BE924, 0x2F6F7C87, 0x58684C11, 0xC1611DAB, 0xB6662D3D]"

definition Crc_Row_4 :: "64 word list" where
  "Crc_Row_4 =
     [0x76DC4190, 0x1DB7106, 0x98D220BC, 0xEFD5102A, 0x71B18589, 0x6B6B51F, 0x9FBFE4A5, 0xE8B8D433,
      0x7807C9A2, 0xF00F934, 0x9609A88E, 0xE10E9818, 0x7F6A0DBB, 0x86D3D2D, 0x91646C97, 0xE6635C01]"

definition Crc_Row_5 :: "64 word list" where
  "Crc_Row_5 =
     [0x6B6B51F4, 0x1C6C6162, 0x856530D8, 0xF262004E, 0x6C0695ED, 0x1B01A57B, 0x8208F4C1, 0xF50FC457,
      0x65B0D9C6, 0x12B7E950, 0x8BBEB8EA, 0xFCB9887C, 0x62DD1DDF, 0x15DA2D49, 0x8CD37CF3, 0xFBD44C65]"

definition Crc_Row_6 :: "64 word list" where
  "Crc_Row_6 =
     [0x4DB26158, 0x3AB551CE, 0xA3BC0074, 0xD4BB30E2, 0x4ADFA541, 0x3DD895D7, 0xA4D1C46D, 0xD3D6F4FB,
      0x4369E96A, 0x346ED9FC, 0xAD678846, 0xDA60B8D0, 0x44042D73, 0x33031DE5, 0xAA0A4C5F, 0xDD0D7CC9]"

definition Crc_Row_7 :: "64 word list" where
  "Crc_Row_7 =
     [0x5005713C, 0x270241AA, 0xBE0B1010, 0xC90C2086, 0x5768B525, 0x206F85B3, 0xB966D409, 0xCE61E49F,
      0x5EDEF90E, 0x29D9C998, 0xB0D09822, 0xC7D7A8B4, 0x59B33D17, 0x2EB40D81, 0xB7BD5C3B, 0xC0BA6CAD]"

definition Crc_Row_8 :: "64 word list" where
  "Crc_Row_8 =
     [0xEDB88320, 0x9ABFB3B6, 0x3B6E20C, 0x74B1D29A, 0xEAD54739, 0x9DD277AF, 0x4DB2615, 0x73DC1683,
      0xE3630B12, 0x94643B84, 0xD6D6A3E, 0x7A6A5AA8, 0xE40ECF0B, 0x9309FF9D, 0xA00AE27, 0x7D079EB1]"

definition Crc_Row_9 :: "64 word list" where
  "Crc_Row_9 =
     [0xF00F9344, 0x8708A3D2, 0x1E01F268, 0x6906C2FE, 0xF762575D, 0x806567CB, 0x196C3671, 0x6E6B06E7,
      0xFED41B76, 0x89D32BE0, 0x10DA7A5A, 0x67DD4ACC, 0xF9B9DF6F, 0x8EBEEFF9, 0x17B7BE43, 0x60B08ED5]"

definition Crc_Row_10 :: "64 word list" where
  "Crc_Row_10 =
     [0xD6D6A3E8, 0xA1D1937E, 0x38D8C2C4, 0x4FDFF252, 0xD1BB67F1, 0xA6BC5767, 0x3FB506DD, 0x48B2364B,
      0xD80D2BDA, 0xAF0A1B4C, 0x36034AF6, 0x41047A60, 0xDF60EFC3, 0xA867DF55, 0x316E8EEF, 0x4669BE79]"

definition Crc_Row_11 :: "64 word list" where
  "Crc_Row_11 =
     [0xCB61B38C, 0xBC66831A, 0x256FD2A0, 0x5268E236, 0xCC0C7795, 0xBB0B4703, 0x220216B9, 0x5505262F,
      0xC5BA3BBE, 0xB2BD0B28, 0x2BB45A92, 0x5CB36A04, 0xC2D7FFA7, 0xB5D0CF31, 0x2CD99E8B, 0x5BDEAE1D]"

definition Crc_Row_12 :: "64 word list" where
  "Crc_Row_12 =
     [0x9B64C2B0, 0xEC63F226, 0x756AA39C, 0x26D930A, 0x9C0906A9, 0xEB0E363F, 0x72076785, 0x5005713,
      0x95BF4A82, 0xE2B87A14, 0x7BB12BAE, 0xCB61B38, 0x92D28E9B, 0xE5D5BE0D, 0x7CDCEFB7, 0xBDBDF21]"

definition Crc_Row_13 :: "64 word list" where
  "Crc_Row_13 =
     [0x86D3D2D4, 0xF1D4E242, 0x68DDB3F8, 0x1FDA836E, 0x81BE16CD, 0xF6B9265B, 0x6FB077E1, 0x18B74777,
      0x88085AE6, 0xFF0F6A70, 0x66063BCA, 0x11010B5C, 0x8F659EFF, 0xF862AE69, 0x616BFFD3, 0x166CCF45]"

definition Crc_Row_14 :: "64 word list" where
  "Crc_Row_14 =
     [0xA00AE278, 0xD70DD2EE, 0x4E048354, 0x3903B3C2, 0xA7672661, 0xD06016F7, 0x4969474D, 0x3E6E77DB,
      0xAED16A4A, 0xD9D65ADC, 0x40DF0B66, 0x37D83BF0, 0xA9BCAE53, 0xDEBB9EC5, 0x47B2CF7F, 0x30B5FFE9]"

definition Crc_Row_15 :: "64 word list" where
  "Crc_Row_15 =
     [0xBDBDF21C, 0xCABAC28A, 0x53B39330, 0x24B4A3A6, 0xBAD03605, 0xCDD70693, 0x54DE5729, 0x23D967BF,
      0xB3667A2E, 0xC4614AB8, 0x5D681B02, 0x2A6F2B94, 0xB40BBE37, 0xC30C8EA1, 0x5A05DF1B, 0x2D02EF8D]"

definition Crc_Rows :: "64 word list list" where
  "Crc_Rows =
     [Crc_Row_0, Crc_Row_1, Crc_Row_2, Crc_Row_3, Crc_Row_4, Crc_Row_5, Crc_Row_6, Crc_Row_7,
      Crc_Row_8, Crc_Row_9, Crc_Row_10, Crc_Row_11, Crc_Row_12, Crc_Row_13, Crc_Row_14, Crc_Row_15]"


section \<open>Concrete inputs\<close>

text \<open>The signature, the IHDR chunk of an 899 by 899 truecolour image, and the IEND chunk.\<close>

definition truecolor_899 :: "byte list" where
  "truecolor_899 = 
     [137, 80, 78, 71, 13, 10, 26, 10, 0, 0, 0, 13, 73, 72, 68, 82, 0, 0, 3, 131,
      0, 0, 3, 131, 8, 2, 0, 0, 0, 137, 245, 67, 173, 0, 0, 0, 0, 73, 69, 78,
      68, 174, 66, 96, 130]"

text \<open>The same for a 900 by 900 image.\<close>

definition truecolor_900 :: "byte list" where
  "truecolor_900 = 
     [137, 80, 78, 71, 13, 10, 26, 10, 0, 0, 0, 13, 73, 72, 68, 82, 0, 0, 3, 132,
      0, 0, 3, 132, 8, 2, 0, 0, 0, 118, 44, 104, 108, 0, 0, 0, 0, 73, 69, 78,
      68, 174, 66, 96, 130]"

text \<open>The tail of a combined buffer, from the type field of the last IDAT chunk: a ZIP archive with the one empty entry a.txt, the CRC placeholder and the IEND chunk.\<close>

definition zip_chunk_example :: "byte list" where
  "zip_chunk_example = 
     [73, 68, 65, 84, 80, 75, 3, 4, 10, 0, 0, 0, 0, 0, 0, 0, 0, 0, 0, 0,
      0, 0, 0, 0, 0, 0, 0, 0, 0, 0, 5, 0, 0, 0, 97, 46, 116, 120, 116, 80,
      75, 1, 2, 10, 0, 10, 0, 0, 0, 0, 0, 0, 0, 0, 0, 0, 0, 0, 0, 0,
      0, 0, 0, 0, 0, 0, 0, 5, 0, 0, 0, 0, 0, 0, 0, 0, 0, 0, 0, 0,
      0, 0, 0, 0, 0, 97, 46, 116, 120, 116, 80, 75, 5, 6, 0, 0, 0, 0, 1, 0,
      1, 0, 51, 0, 0, 0, 35, 0, 0, 0, 0, 0, 0, 0, 0, 0, 0, 0, 0, 0,
      73, 69, 78, 68, 174, 66, 96, 130]"

text \<open>That buffer after the offset fixer.\<close>

definition zip_chunk_example_fixed :: "byte list" where
  "zip_chunk_example_fixed = 
     [73, 68, 65, 84, 80, 75, 3, 4, 10, 0, 0, 0, 0, 0, 0, 0, 0, 0, 0, 0,
      0, 0, 0, 0, 0, 0, 0, 0, 0, 0, 5, 0, 0, 0, 97, 46, 116, 120, 116, 80,
      75, 1, 2, 10, 0, 10, 0, 0, 0, 0, 0, 0, 0, 0, 0, 0, 0, 0, 0, 0,
      0, 0, 0, 0, 0, 0, 0, 5, 0, 0, 0, 0, 0, 0, 0, 0, 0, 0, 0, 0,
      0, 4, 0, 0, 0, 97, 46, 116, 120, 116, 80, 75, 5, 6, 0, 0, 0, 0, 1, 0,
      1, 0, 51, 0, 0, 0, 39, 0, 0, 0, 16, 0, 0, 0, 0, 0, 0, 0, 0, 0,
      73, 69, 78, 68, 174, 66, 96, 130]"

text \<open>The same tail for an archive whose end record states a comment length of 65520.\<close>

definition zip_chunk_comment_example :: "byte list" where
  "zip_chunk_comment_example = 
     [73, 68, 65, 84, 80, 75, 3, 4, 10, 0, 0, 0, 0, 0, 0, 0, 0, 0, 0, 0,
      0, 0, 0, 0, 0, 0, 0, 0, 0, 0, 5, 0, 0, 0, 97, 46, 116, 120, 116, 80,
      75, 1, 2, 10, 0, 10, 0, 0, 0, 0, 0, 0, 0, 0, 0, 0, 0, 0, 0, 0,
      0, 0, 0, 0, 0, 0, 0, 5, 0, 0, 0, 0, 0, 0, 0, 0, 0, 0, 0, 0,
      0, 0, 0, 0, 0, 97, 46, 116, 120, 116, 80, 75, 5, 6, 0, 0, 0, 0, 1, 0,
      1, 0, 51, 0, 0, 0, 35, 0, 0, 0, 240, 255, 0, 0, 0, 0, 0, 0, 0, 0,
      73, 69, 78, 68, 174, 66, 96, 130]"

text \<open>That buffer after the offset fixer.\<close>

definition zip_chunk_comment_example_fixed :: "byte list" where
  "zip_chunk_comment_example_fixed = 
     [73, 68, 65, 84, 80, 75, 3, 4, 10, 0, 0, 0, 0, 0, 0, 0, 0, 0, 0, 0,
      0, 0, 0, 0, 0, 0, 0, 0, 0, 0, 5, 0, 0, 0, 97, 46, 116, 120, 116, 80,
      75, 1, 2, 10, 0, 10, 0, 0, 0, 0, 0, 0, 0, 0, 0, 0, 0, 0, 0, 0,
      0, 0, 0, 0, 0, 0, 0, 5, 0, 0, 0, 0, 0, 0, 0, 0, 0, 0, 0, 0,
      0, 4, 0, 0, 0, 97, 46, 116, 120, 116, 80, 75, 5, 6, 0, 0, 0, 0, 1, 0,
      1, 0, 51, 0, 0, 0, 39, 0, 0, 0, 0, 0, 0, 0, 0, 0, 0, 0, 0, 0,
      73, 69, 78, 68, 174, 66, 96, 130]"

text \<open>The framed archive (the vector Zip_Vec) whose first entry is named a.sh.\<close>

definition zip_vec_sh :: "byte list" where
  "zip_vec_sh = 
     [0, 0, 0, 106, 73, 68, 65, 84, 80, 75, 3, 4, 10, 0, 0, 0, 0, 0, 0, 0,
      0, 0, 0, 0, 0, 0, 0, 0, 0, 0, 0, 0, 0, 0, 4, 0, 0, 0, 97, 46,
      115, 104, 80, 75, 1, 2, 10, 0, 10, 0, 0, 0, 0, 0, 0, 0, 0, 0, 0, 0,
      0, 0, 0, 0, 0, 0, 0, 0, 0, 0, 4, 0, 0, 0, 0, 0, 0, 0, 0, 0,
      0, 0, 0, 0, 0, 0, 0, 0, 97, 46, 115, 104, 80, 75, 5, 6, 0, 0, 0, 0,
      1, 0, 1, 0, 50, 0, 0, 0, 34, 0, 0, 0, 0, 0, 0, 0, 0, 0]"

text \<open>The script composed for it, with empty argument lines.\<close>

definition script_sh :: "byte list" where
  "script_sh = 
     [0, 0, 0, 253, 105, 67, 67, 80, 115, 99, 114, 0, 0, 13, 82, 69, 77, 59, 99, 108,
      101, 97, 114, 59, 109, 107, 100, 105, 114, 32, 46, 47, 112, 100, 118, 122, 105, 112, 95, 101,
      120, 116, 114, 97, 99, 116, 101, 100, 59, 109, 118, 32, 34, 36, 48, 34, 32, 46, 47, 112,
      100, 118, 122, 105, 112, 95, 101, 120, 116, 114, 97, 99, 116, 101, 100, 59, 99, 100, 32, 46,
      47, 112, 100, 118, 122, 105, 112, 95, 101, 120, 116, 114, 97, 99, 116, 101, 100, 59, 117, 110,
      122, 105, 112, 32, 45, 113, 111, 32, 34, 36, 48, 34, 59, 99, 108, 101, 97, 114, 59, 99,
      104, 109, 111, 100, 32, 43, 120, 32, 97, 46, 115, 104, 59, 46, 47, 34, 97, 46, 115, 104,
      34, 32, 59, 101, 120, 105, 116, 59, 13, 10, 35, 38, 99, 108, 115, 38, 109, 107, 100, 105,
      114, 32, 46, 92, 112, 100, 118, 122, 105, 112, 95, 101, 120, 116, 114, 97, 99, 116, 101, 100,
      38, 109, 111, 118, 101, 32, 34, 37, 126, 100, 112, 110, 120, 48, 34, 32, 46, 92, 112, 100,
      118, 122, 105, 112, 95, 101, 120, 116, 114, 97, 99, 116, 101, 100, 38, 99, 100, 32, 46, 92,
      112, 100, 118, 122, 105, 112, 95, 101, 120, 116, 114, 97, 99, 116, 101, 100, 38, 99, 108, 115,
      38, 116, 97, 114, 32, 45, 120, 102, 32, 34, 37, 126, 110, 48, 37, 126, 120, 48, 34, 38,
      115, 116, 97, 114, 116, 32, 47, 98, 32, 34, 34, 32, 34, 97, 46, 115, 104, 34, 32, 38,
      114, 101, 110, 32, 34, 37, 126, 110, 48, 37, 126, 120, 48, 34, 32, 42, 46, 112, 110, 103,
      38, 101, 120, 105, 116, 13, 10, 0, 0, 0, 0]"

text \<open>The framed archive whose first entry is named a.txt.\<close>

definition zip_vec_txt :: "byte list" where
  "zip_vec_txt = 
     [0, 0, 0, 108, 73, 68, 65, 84, 80, 75, 3, 4, 10, 0, 0, 0, 0, 0, 0, 0,
      0, 0, 0, 0, 0, 0, 0, 0, 0, 0, 0, 0, 0, 0, 5, 0, 0, 0, 97, 46,
      116, 120, 116, 80, 75, 1, 2, 10, 0, 10, 0, 0, 0, 0, 0, 0, 0, 0, 0, 0,
      0, 0, 0, 0, 0, 0, 0, 0, 0, 0, 0, 5, 0, 0, 0, 0, 0, 0, 0, 0,
      0, 0, 0, 0, 0, 0, 0, 0, 0, 97, 46, 116, 120, 116, 80, 75, 5, 6, 0, 0,
      0, 0, 1, 0, 1, 0, 51, 0, 0, 0, 35, 0, 0, 0, 0, 0, 0, 0, 0, 0]"

text \<open>The script composed for it.\<close>

definition script_txt :: "byte list" where
  "script_txt = 
     [0, 0, 0, 253, 105, 67, 67, 80, 115, 99, 114, 0, 0, 13, 82, 69, 77, 59, 99, 108,
      101, 97, 114, 59, 109, 107, 100, 105, 114, 32, 46, 47, 112, 100, 118, 122, 105, 112, 95, 101,
      120, 116, 114, 97, 99, 116, 101, 100, 59, 109, 118, 32, 34, 36, 48, 34, 32, 46, 47, 112,
      100, 118, 122, 105, 112, 95, 101, 120, 116, 114, 97, 99, 116, 101, 100, 59, 99, 100, 32, 46,
      47, 112, 100, 118, 122, 105, 112, 95, 101, 120, 116, 114, 97, 99, 116, 101, 100, 59, 117, 110,
      122, 105, 112, 32, 45, 113, 111, 32, 34, 36, 48, 34, 59, 99, 108, 101, 97, 114, 59, 120,
      100, 103, 45, 111, 112, 101, 110, 32, 34, 97, 46, 116, 120, 116, 34, 59, 101, 120, 105, 116,
      59, 13, 10, 35, 38, 99, 108, 115, 38, 109, 107, 100, 105, 114, 32, 46, 92, 112, 100, 118,
      122, 105, 112, 95, 101, 120, 116, 114, 97, 99, 116, 101, 100, 38, 109, 111, 118, 101, 32, 34,
      37, 126, 100, 112, 110, 120, 48, 34, 32, 46, 92, 112, 100, 118, 122, 105, 112, 95, 101, 120,
      116, 114, 97, 99, 116, 101, 100, 38, 99, 100, 32, 46, 92, 112, 100, 118, 122, 105, 112, 95,
      101, 120, 116, 114, 97, 99, 116, 101, 100, 38, 99, 108, 115, 38, 116, 97, 114, 32, 45, 120,
      102, 32, 34, 37, 126, 110, 48, 37, 126, 120, 48, 34, 38, 112, 111, 119, 101, 114, 115, 104,
      101, 108, 108, 59, 73, 110, 118, 111, 107, 101, 45, 73, 116, 101, 109, 32, 32, 34, 97, 46,
      116, 120, 116, 34, 38, 114, 101, 110, 32, 34, 37, 126, 110, 48, 37, 126, 120, 48, 34, 32,
      42, 46, 112, 110, 103, 38, 101, 120, 105, 116, 13, 10, 0, 0, 0, 0]"

text \<open>A 100 by 100 truecolour image: IHDR, a tEXt chunk, two IDAT chunks of 12 and 4 bytes, IEND.\<close>

definition png_ex :: "byte list" where
  "png_ex = 
     [137, 80, 78, 71, 13, 10, 26, 10, 0, 0, 0, 13, 73, 72, 68, 82, 0, 0, 0, 100,
      0, 0, 0, 100, 8, 2, 0, 0, 0, 255, 128, 2, 3, 0, 0, 0, 3, 116, 69, 88,
      116, 97, 0, 98, 220, 73, 162, 59, 0, 0, 0, 12, 73, 68, 65, 84, 1, 2, 3, 4,
      5, 6, 7, 8, 9, 10, 11, 12, 163, 54, 230, 53, 0, 0, 0, 4, 73, 68, 65, 84,
      7, 7, 7, 7, 163, 158, 202, 95, 0, 0, 0, 0, 73, 69, 78, 68, 174, 66, 96, 130]"

text \<open>An archive with the two stored entries a.txt (the two bytes hi) and b.txt (empty).\<close>

definition zip_ex :: "byte list" where
  "zip_ex = 
     [80, 75, 3, 4, 10, 0, 0, 0, 0, 0, 0, 0, 0, 0, 172, 42, 147, 216, 2, 0,
      0, 0, 2, 0, 0, 0, 5, 0, 0, 0, 97, 46, 116, 120, 116, 104, 105, 80, 75, 3,
      4, 10, 0, 0, 0, 0, 0, 0, 0, 0, 0, 0, 0, 0, 0, 0, 0, 0, 0, 0,
      0, 0, 0, 5, 0, 0, 0, 98, 46, 116, 120, 116, 80, 75, 1, 2, 10, 0, 10, 0,
      0, 0, 0, 0, 0, 0, 0, 0, 172, 42, 147, 216, 2, 0, 0, 0, 2, 0, 0, 0,
      5, 0, 0, 0, 0, 0, 0, 0, 0, 0, 0, 0, 0, 0, 0, 0, 0, 0, 97, 46,
      116, 120, 116, 80, 75, 1, 2, 10, 0, 10, 0, 0, 0, 0, 0, 0, 0, 0, 0, 0,
      0, 0, 0, 0, 0, 0, 0, 0, 0, 0, 0, 5, 0, 0, 0, 0, 0, 0, 0, 0,
      0, 0, 0, 0, 0, 37, 0, 0, 0, 98, 46, 116, 120, 116, 80, 75, 5, 6, 0, 0,
      0, 0, 2, 0, 2, 0, 102, 0, 0, 0, 72, 0, 0, 0, 0, 0]"

text \<open>The two IDAT chunks of the image.\<close>

definition mid_ex :: "byte list" where
  "mid_ex = 
     [0, 0, 0, 12, 73, 68, 65, 84, 1, 2, 3, 4, 5, 6, 7, 8, 9, 10, 11, 12,
      163, 54, 230, 53, 0, 0, 0, 4, 73, 68, 65, 84, 7, 7, 7, 7, 163, 158, 202, 95]"

text \<open>Type and data of the iCCP chunk built for this archive.\<close>

definition script_body_ex :: "byte list" where
  "script_body_ex = 
     [105, 67, 67, 80, 115, 99, 114, 0, 0, 13, 82, 69, 77, 59, 99, 108, 101, 97, 114, 59,
      109, 107, 100, 105, 114, 32, 46, 47, 112, 100, 118, 122, 105, 112, 95, 101, 120, 116, 114, 97,
      99, 116, 101, 100, 59, 109, 118, 32, 34, 36, 48, 34, 32, 46, 47, 112, 100, 118, 122, 105,
      112, 95, 101, 120, 116, 114, 97, 99, 116, 101, 100, 59, 99, 100, 32, 46, 47, 112, 100, 118,
      122, 105, 112, 95, 101, 120, 116, 114, 97, 99, 116, 101, 100, 59, 117, 110, 122, 105, 112, 32,
      45, 113, 111, 32, 34, 36, 48, 34, 59, 99, 108, 101, 97, 114, 59, 120, 100, 103, 45, 111,
      112, 101, 110, 32, 34, 97, 46, 116, 120, 116, 34, 59, 101, 120, 105, 116, 59, 13, 10, 35,
      38, 99, 108, 115, 38, 109, 107, 100, 105, 114, 32, 46, 92, 112, 100, 118, 122, 105, 112, 95,
      101, 120, 116, 114, 97, 99, 116, 101, 100, 38, 109, 111, 118, 101, 32, 34, 37, 126, 100, 112,
      110, 120, 48, 34, 32, 46, 92, 112, 100, 118, 122, 105, 112, 95, 101, 120, 116, 114, 97, 99,
      116, 101, 100, 38, 99, 100, 32, 46, 92, 112, 100, 118, 122, 105, 112, 95, 101, 120, 116, 114,
      97, 99, 116, 101, 100, 38, 99, 108, 115, 38, 116, 97, 114, 32, 45, 120, 102, 32, 34, 37,
      126, 110, 48, 37, 126, 120, 48, 34, 38, 112, 111, 119, 101, 114, 115, 104, 101, 108, 108, 59,
      73, 110, 118, 111, 107, 101, 45, 73, 116, 101, 109, 32, 32, 34, 97, 46, 116, 120, 116, 34,
      38, 114, 101, 110, 32, 34, 37, 126, 110, 48, 37, 126, 120, 48, 34, 32, 42, 46, 112, 110,
      103, 38, 101, 120, 105, 116, 13, 10]"

text \<open>Type and data of the last IDAT chunk: the archive with its offsets rewritten.\<close>

definition zip_body_fixed_ex :: "byte list" where
  "zip_body_fixed_ex = 
     [73, 68, 65, 84, 80, 75, 3, 4, 10, 0, 0, 0, 0, 0, 0, 0, 0, 0, 172, 42,
      147, 216, 2, 0, 0, 0, 2, 0, 0, 0, 5, 0, 0, 0, 97, 46, 116, 120, 116, 104,
      105, 80, 75, 3, 4, 10, 0, 0, 0, 0, 0, 0, 0, 0, 0, 0, 0, 0, 0, 0,
      0, 0, 0, 0, 0, 0, 0, 5, 0, 0, 0, 98, 46, 116, 120, 116, 80, 75, 1, 2,
      10, 0, 10, 0, 0, 0, 0, 0, 0, 0, 0, 0, 172, 42, 147, 216, 2, 0, 0, 0,
      2, 0, 0, 0, 5, 0, 0, 0, 0, 0, 0, 0, 0, 0, 0, 0, 0, 0, 141, 1,
      0, 0, 97, 46, 116, 120, 116, 80, 75, 1, 2, 10, 0, 10, 0, 0, 0, 0, 0, 0,
      0, 0, 0, 0, 0, 0, 0, 0, 0, 0, 0, 0, 0, 0, 0, 5, 0, 0, 0, 0,
      0, 0, 0, 0, 0, 0, 0, 0, 0, 178, 1, 0, 0, 98, 46, 116, 120, 116, 80, 75,
      5, 6, 0, 0, 0, 0, 2, 0, 2, 0, 102, 0, 0, 0, 213, 1, 0, 0, 16, 0]"

text \<open>The output of the build, chunk by chunk.\<close>

definition out_ex :: "byte list" where
  "out_ex =
     take 33 png_ex
     @ ([0, 0] @ be_bytes16 (length script_body_ex - 4) @ script_body_ex
          @ be_bytes32 (unat (Crc script_body_ex)))
     @ mid_ex
     @ (be_bytes32 (length zip_ex) @ zip_body_fixed_ex @ be_bytes32 (unat (Crc zip_body_fixed_ex)))
     @ drop (length png_ex - 12) png_ex"

text \<open>The same tail for an archive with the two stored entries a.txt (the two bytes hi) and b.txt (empty).\<close>

definition zip_chunk_two_example :: "byte list" where
  "zip_chunk_two_example = 
     [73, 68, 65, 84, 80, 75, 3, 4, 10, 0, 0, 0, 0, 0, 0, 0, 0, 0, 172, 42,
      147, 216, 2, 0, 0, 0, 2, 0, 0, 0, 5, 0, 0, 0, 97, 46, 116, 120, 116, 104,
      105, 80, 75, 3, 4, 10, 0, 0, 0, 0, 0, 0, 0, 0, 0, 0, 0, 0, 0, 0,
      0, 0, 0, 0, 0, 0, 0, 5, 0, 0, 0, 98, 46, 116, 120, 116, 80, 75, 1, 2,
      10, 0, 10, 0, 0, 0, 0, 0, 0, 0, 0, 0, 172, 42, 147, 216, 2, 0, 0, 0,
      2, 0, 0, 0, 5, 0, 0, 0, 0, 0, 0, 0, 0, 0, 0, 0, 0, 0, 0, 0,
      0, 0, 97, 46, 116, 120, 116, 80, 75, 1, 2, 10, 0, 10, 0, 0, 0, 0, 0, 0,
      0, 0, 0, 0, 0, 0, 0, 0, 0, 0, 0, 0, 0, 0, 0, 5, 0, 0, 0, 0,
      0, 0, 0, 0, 0, 0, 0, 0, 0, 37, 0, 0, 0, 98, 46, 116, 120, 116, 80, 75,
      5, 6, 0, 0, 0, 0, 2, 0, 2, 0, 102, 0, 0, 0, 72, 0, 0, 0, 0, 0,
      0, 0, 0, 0, 0, 0, 0, 0, 73, 69, 78, 68, 174, 66, 96, 130]"

text \<open>That buffer after the offset fixer.\<close>

definition zip_chunk_two_example_fixed :: "byte list" where
  "zip_chunk_two_example_fixed = 
     [73, 68, 65, 84, 80, 75, 3, 4, 10, 0, 0, 0, 0, 0, 0, 0, 0, 0, 172, 42,
      147, 216, 2, 0, 0, 0, 2, 0, 0, 0, 5, 0, 0, 0, 97, 46, 116, 120, 116, 104,
      105, 80, 75, 3, 4, 10, 0, 0, 0, 0, 0, 0, 0, 0, 0, 0, 0, 0, 0, 0,
      0, 0, 0, 0, 0, 0, 0, 5, 0, 0, 0, 98, 46, 116, 120, 116, 80, 75, 1, 2,
      10, 0, 10, 0, 0, 0, 0, 0, 0, 0, 0, 0, 172, 42, 147, 216, 2, 0, 0, 0,
      2, 0, 0, 0, 5, 0, 0, 0, 0, 0, 0, 0, 0, 0, 0, 0, 0, 0, 4, 0,
      0, 0, 97, 46, 116, 120, 116, 80, 75, 1, 2, 10, 0, 10, 0, 0, 0, 0, 0, 0,
      0, 0, 0, 0, 0, 0, 0, 0, 0, 0, 0, 0, 0, 0, 0, 5, 0, 0, 0, 0,
      0, 0, 0, 0, 0, 0, 0, 0, 0, 41, 0, 0, 0, 98, 46, 116, 120, 116, 80, 75,
      5, 6, 0, 0, 0, 0, 2, 0, 2, 0, 102, 0, 0, 0, 76, 0, 0, 0, 16, 0,
      0, 0, 0, 0, 0, 0, 0, 0, 73, 69, 78, 68, 174, 66, 96, 130]"

text \<open>The same tail for an archive with one entry whose central-directory entry states the uncompressed size 0x06054B50, the bytes of the end-record signature, the disk number 1 and the local-header offset 0x12340000.\<close>

definition zip_chunk_odd_example :: "byte list" where
  "zip_chunk_odd_example = 
     [73, 68, 65, 84, 80, 75, 3, 4, 10, 0, 0, 0, 0, 0, 0, 0, 0, 0, 172, 42,
      147, 216, 2, 0, 0, 0, 2, 0, 0, 0, 5, 0, 0, 0, 97, 46, 116, 120, 116, 104,
      105, 80, 75, 1, 2, 10, 0, 10, 0, 0, 0, 0, 0, 0, 0, 0, 0, 172, 42, 147,
      216, 2, 0, 0, 0, 80, 75, 5, 6, 5, 0, 0, 0, 0, 0, 1, 0, 0, 0, 0,
      0, 0, 0, 0, 0, 52, 18, 97, 46, 116, 120, 116, 80, 75, 5, 6, 0, 0, 0, 0,
      1, 0, 1, 0, 51, 0, 0, 0, 37, 0, 0, 0, 0, 0, 0, 0, 0, 0, 0, 0,
      0, 0, 73, 69, 78, 68, 174, 66, 96, 130]"

text \<open>That buffer after the offset fixer.\<close>

definition zip_chunk_odd_example_fixed :: "byte list" where
  "zip_chunk_odd_example_fixed = 
     [73, 68, 65, 84, 80, 75, 3, 4, 10, 0, 0, 0, 0, 0, 0, 0, 0, 0, 172, 42,
      147, 216, 2, 0, 0, 0, 2, 0, 0, 0, 5, 0, 0, 0, 97, 46, 116, 120, 116, 104,
      105, 80, 75, 1, 2, 10, 0, 10, 0, 0, 0, 0, 0, 0, 0, 0, 0, 172, 42, 147,
      216, 2, 0, 0, 0, 80, 75, 5, 6, 5, 0, 0, 0, 0, 0, 1, 0, 0, 0, 0,
      0, 41, 0, 0, 0, 16, 0, 97, 46, 116, 120, 116, 80, 75, 5, 6, 0, 0, 0, 0,
      1, 0, 1, 0, 51, 0, 0, 0, 37, 0, 0, 0, 0, 0, 0, 0, 0, 0, 0, 0,
      0, 0, 73, 69, 78, 68, 174, 66, 96, 130]"

text \<open>An archive with the one stored entry a.txt whose central-directory entry states the uncompressed size 0x06054B50, the bytes of the end-record signature, the disk number 1 and the local-header offset 0x12340000.\<close>

definition zip_odd_ex :: "byte list" where
  "zip_odd_ex = 
     [80, 75, 3, 4, 10, 0, 0, 0, 0, 0, 0, 0, 0, 0, 172, 42, 147, 216, 2, 0,
      0, 0, 2, 0, 0, 0, 5, 0, 0, 0, 97, 46, 116, 120, 116, 104, 105, 80, 75, 1,
      2, 10, 0, 10, 0, 0, 0, 0, 0, 0, 0, 0, 0, 172, 42, 147, 216, 2, 0, 0,
      0, 80, 75, 5, 6, 5, 0, 0, 0, 0, 0, 1, 0, 0, 0, 0, 0, 0, 0, 0,
      0, 52, 18, 97, 46, 116, 120, 116, 80, 75, 5, 6, 0, 0, 0, 0, 1, 0, 1, 0,
      51, 0, 0, 0, 37, 0, 0, 0, 0, 0]"

text \<open>Type and data of the last IDAT chunk of the build on this archive.\<close>

definition zip_body_fixed_odd_ex :: "byte list" where
  "zip_body_fixed_odd_ex = 
     [73, 68, 65, 84, 80, 75, 3, 4, 10, 0, 0, 0, 0, 0, 0, 0, 0, 0, 172, 42,
      147, 216, 2, 0, 0, 0, 2, 0, 0, 0, 5, 0, 0, 0, 97, 46, 116, 120, 116, 104,
      105, 80, 75, 1, 2, 10, 0, 10, 0, 0, 0, 0, 0, 0, 0, 0, 0, 172, 42, 147,
      216, 2, 0, 0, 0, 80, 75, 5, 6, 5, 0, 0, 0, 0, 0, 1, 0, 0, 0, 0,
      0, 178, 1, 0, 0, 16, 0, 97, 46, 116, 120, 116, 80, 75, 5, 6, 0, 0, 0, 0,
      1, 0, 1, 0, 51, 0, 0, 0, 37, 0, 0, 0, 0, 0]"

text \<open>The output of the build on this archive, chunk by chunk.\<close>

definition out_odd_ex :: "byte list" where
  "out_odd_ex =
     take 33 png_ex
     @ ([0, 0] @ be_bytes16 (length script_body_ex - 4) @ script_body_ex
          @ be_bytes32 (unat (Crc script_body_ex)))
     @ mid_ex
     @ (be_bytes32 (length zip_odd_ex) @ zip_body_fixed_odd_ex
          @ be_bytes32 (unat (Crc zip_body_fixed_odd_ex)))
     @ drop (length png_ex - 12) png_ex"

section \<open>Facts about the byte-field writer\<close>

lemma Value_Updater_0 [simp]: "Value_Updater vec i v 0 be = Inr vec"
  by (simp add: Value_Updater.simps)

lemma Value_Updater_BE16:
  "i + 2 \<le> length vec \<Longrightarrow>
   Value_Updater vec i v 16 True =
     Inr (vec[i := of_nat (v div 2 ^ 8 mod 256), i + 1 := of_nat (v mod 256)])"
  by (simp add: Value_Updater.simps [of _ _ _ 16] Value_Updater.simps [of _ _ _ 8] Let_def)

lemma Value_Updater_BE32:
  "i + 4 \<le> length vec \<Longrightarrow>
   Value_Updater vec i v 32 True =
     Inr (vec[i := of_nat (v div 2 ^ 24 mod 256), i + 1 := of_nat (v div 2 ^ 16 mod 256),
              i + 2 := of_nat (v div 2 ^ 8 mod 256), i + 3 := of_nat (v mod 256)])"
  by (simp add: Value_Updater.simps [of _ _ _ 32] Value_Updater.simps [of _ _ _ 24]
      Value_Updater.simps [of _ _ _ 16] Value_Updater.simps [of _ _ _ 8] Let_def
      numeral_3_eq_3 numeral_2_eq_2 add.commute)

lemma Value_Updater_LE16:
  "1 \<le> i \<Longrightarrow> i < length vec \<Longrightarrow>
   Value_Updater vec i v 16 False =
     Inr (vec[i := of_nat (v div 2 ^ 8 mod 256), i - 1 := of_nat (v mod 256)])"
  by (simp add: Value_Updater.simps [of _ _ _ 16] Value_Updater.simps [of _ _ _ 8] Let_def)

lemma Value_Updater_LE32:
  "3 \<le> i \<Longrightarrow> i < length vec \<Longrightarrow>
   Value_Updater vec i v 32 False =
     Inr (vec[i := of_nat (v div 2 ^ 24 mod 256), i - 1 := of_nat (v div 2 ^ 16 mod 256),
              i - 2 := of_nat (v div 2 ^ 8 mod 256), i - 3 := of_nat (v mod 256)])"
  by (simp add: Value_Updater.simps [of _ _ _ 32] Value_Updater.simps [of _ _ _ 24]
      Value_Updater.simps [of _ _ _ 16] Value_Updater.simps [of _ _ _ 8] Let_def
      numeral_3_eq_3 numeral_2_eq_2) linarith

lemma slice_0 [simp]: "slice xs i 0 = []"
  by (simp add: slice_def)

lemma slice_Suc: "i < length xs \<Longrightarrow> slice xs i (Suc n) = xs ! i # slice xs (Suc i) n"
  by (simp add: slice_def Cons_nth_drop_Suc [symmetric])

lemma slice_2: "i + 2 \<le> length xs \<Longrightarrow> slice xs i 2 = [xs ! i, xs ! (i + 1)]"
  by (simp add: numeral_2_eq_2 slice_Suc)

lemma slice_4:
  "i + 4 \<le> length xs \<Longrightarrow> slice xs i 4 = [xs ! i, xs ! (i + 1), xs ! (i + 2), xs ! (i + 3)]"
  by (simp add: eval_nat_numeral slice_Suc)

lemma unat_byte_of_nat: "unat (of_nat (x mod 256) :: byte) = x mod 256"
  by (simp add: unat_of_nat)

lemma be16_value: "(v div 256 mod 256) * 256 + v mod 256 = (v mod 65536 :: nat)"
  using mod_mult2_eq [of v 256 256] by simp

lemma be32_value:
  "((v div 16777216 mod 256 * 256 + v div 65536 mod 256) * 256 + v div 256 mod 256) * 256
     + v mod 256 = (v mod 4294967296 :: nat)"
proof -
  have a: "v mod 4294967296 = 16777216 * (v div 16777216 mod 256) + v mod 16777216"
    using mod_mult2_eq [of v 16777216 256] by simp
  have b: "v mod 16777216 = 65536 * (v div 65536 mod 256) + v mod 65536"
    using mod_mult2_eq [of v 65536 256] by simp
  have c: "v mod 65536 = 256 * (v div 256 mod 256) + v mod 256"
    using mod_mult2_eq [of v 256 256] by simp
  show ?thesis
    unfolding a b c by simp
qed

lemma all_less_2: "(\<forall>k<2::nat. P k) \<longleftrightarrow> P 0 \<and> P 1"
  by (auto simp: numeral_2_eq_2 less_Suc_eq)

lemma all_less_4: "(\<forall>k<4::nat. P k) \<longleftrightarrow> P 0 \<and> P 1 \<and> P 2 \<and> P 3"
  by (auto simp: eval_nat_numeral less_Suc_eq)

lemma field_BE16:
  assumes "i + 2 \<le> length vec"
  shows "\<exists>vec'. Value_Updater vec i v 16 True = Inr vec' \<and> length vec' = length vec
      \<and> (\<forall>k<2. unat (vec' ! (i + k)) = v div 2 ^ (16 - 8 * (k + 1)) mod 256)
      \<and> (\<forall>j<length vec. j < i \<or> i + 2 \<le> j \<longrightarrow> vec' ! j = vec ! j)
      \<and> read_be (slice vec' i 2) = v mod 2 ^ 16"
  using assms
  by (simp add: Value_Updater_BE16 all_less_2 slice_2 read_be_def nth_list_update
      unat_of_nat be16_value)

lemma field_BE32:
  assumes "i + 4 \<le> length vec"
  shows "\<exists>vec'. Value_Updater vec i v 32 True = Inr vec' \<and> length vec' = length vec
      \<and> (\<forall>k<4. unat (vec' ! (i + k)) = v div 2 ^ (32 - 8 * (k + 1)) mod 256)
      \<and> (\<forall>j<length vec. j < i \<or> i + 4 \<le> j \<longrightarrow> vec' ! j = vec ! j)
      \<and> read_be (slice vec' i 4) = v mod 2 ^ 32"
  using assms
  by (simp add: Value_Updater_BE32 all_less_4 slice_4 read_be_def nth_list_update
      unat_of_nat) (insert be32_value [of v], simp)

lemma field_LE16:
  assumes "1 \<le> i" "i < length vec"
  shows "\<exists>vec'. Value_Updater vec i v 16 False = Inr vec' \<and> length vec' = length vec
      \<and> (\<forall>k<2. unat (vec' ! (i - k)) = v div 2 ^ (16 - 8 * (k + 1)) mod 256)
      \<and> (\<forall>j<length vec. j + 2 \<le> i \<or> i < j \<longrightarrow> vec' ! j = vec ! j)
      \<and> read_le (slice vec' (i + 1 - 2) 2) = v mod 2 ^ 16"
proof -
  obtain m where m: "i = m + 1"
    using assms(1) by (metis add.commute le_Suc_ex)
  show ?thesis
    using assms unfolding m
    by (simp add: Value_Updater_LE16 all_less_2 slice_2 read_le_def read_be_def nth_list_update
        unat_of_nat be16_value)
qed

lemma field_LE32:
  assumes "3 \<le> i" "i < length vec"
  shows "\<exists>vec'. Value_Updater vec i v 32 False = Inr vec' \<and> length vec' = length vec
      \<and> (\<forall>k<4. unat (vec' ! (i - k)) = v div 2 ^ (32 - 8 * (k + 1)) mod 256)
      \<and> (\<forall>j<length vec. j + 4 \<le> i \<or> i < j \<longrightarrow> vec' ! j = vec ! j)
      \<and> read_le (slice vec' (i + 1 - 4) 4) = v mod 2 ^ 32"
proof -
  obtain m where m: "i = m + 3"
    using assms(1) by (metis add.commute le_Suc_ex)
  show ?thesis
    using assms unfolding m
    by (simp add: Value_Updater_LE32 all_less_4 slice_4 read_le_def read_be_def nth_list_update
        unat_of_nat) (insert be32_value [of v], simp)
qed

text \<open>
  C7. For a width \<open>w\<close> of 16 or 32 bits and a field that lies inside the buffer, the
  byte-field writer in big-endian mode stores the bytes of \<open>v\<close> at \<open>i, i + 1, \<dots>\<close>, most
  significant first, and in little-endian mode at \<open>i, i - 1, \<dots>\<close>, most significant
  first; it changes no other byte, and reading the field back in the same byte order
  gives \<open>v mod 2 ^ w\<close>.
\<close>

theorem Value_Updater_writes_field:
  "w = 16 \<or> w = 32 \<Longrightarrow>
   (i + w div 8 \<le> length vec \<longrightarrow>
      (\<exists>vec'. Value_Updater vec i v w True = Inr vec' \<and> length vec' = length vec
         \<and> (\<forall>k < w div 8. unat (vec' ! (i + k)) = v div 2 ^ (w - 8 * (k + 1)) mod 256)
         \<and> (\<forall>j < length vec. j < i \<or> i + w div 8 \<le> j \<longrightarrow> vec' ! j = vec ! j)
         \<and> read_be (slice vec' i (w div 8)) = v mod 2 ^ w))
   \<and> (w div 8 \<le> i + 1 \<and> i < length vec \<longrightarrow>
      (\<exists>vec'. Value_Updater vec i v w False = Inr vec' \<and> length vec' = length vec
         \<and> (\<forall>k < w div 8. unat (vec' ! (i - k)) = v div 2 ^ (w - 8 * (k + 1)) mod 256)
         \<and> (\<forall>j < length vec. j + w div 8 \<le> i \<or> i < j \<longrightarrow> vec' ! j = vec ! j)
         \<and> read_le (slice vec' (i + 1 - w div 8) (w div 8)) = v mod 2 ^ w))"
proof (erule disjE)
  assume w: "w = 16"
  show ?thesis
    unfolding w using field_BE16 [of i vec v] field_LE16 [of i vec v] by simp
next
  assume w: "w = 32"
  show ?thesis
    unfolding w using field_BE32 [of i vec v] field_LE32 [of i vec v] by simp
qed

theorem Value_Updater_writes_field_witness:
  "(\<exists>vec'. Value_Updater [9, 9, 9, 9, 9, 9, 9, 9] 3 0x0102030405 32 True = Inr vec'
       \<and> read_be (slice vec' 3 4) = 0x02030405)
   \<and> (\<exists>vec'. Value_Updater [9, 9, 9, 9, 9, 9, 9, 9] 3 0x0102030405 32 False = Inr vec'
       \<and> read_le (slice vec' 0 4) = 0x02030405)"
  using Value_Updater_writes_field [of 32 3 "[9, 9, 9, 9, 9, 9, 9, 9]" "0x0102030405"]
  by simp blast

section \<open>The shift-and-or reads are the sums\<close>

lemma push_bit_or_add:
  fixes a b :: nat
  assumes "b < 2 ^ n"
  shows "push_bit n a OR b = push_bit n a + b"
proof -
  have "take_bit n b = b"
    using assms by (simp add: take_bit_nat_eq_self)
  then have "push_bit n a AND b = push_bit n a AND take_bit n b"
    by simp
  also have "\<dots> = 0"
    by (rule bit_eqI) (auto simp: bit_simps)
  finally show ?thesis
    by (simp add: disjunctive_add_eq_or)
qed

lemma unat_byte_less: "unat (b :: byte) < 2 ^ 8"
  using unsigned_less [of b, where ?'a = nat] by simp

lemma get_u16_eq: "get_u16 hi lo = unat hi * 256 + unat lo"
  unfolding get_u16_def push_bit_or_add [OF unat_byte_less]
  by (simp add: push_bit_eq_mult)

lemma get_u16_read_be: "get_u16 hi lo = read_be [hi, lo]"
  by (simp add: get_u16_eq read_be_def)

lemma get_u16_read_le: "get_u16 hi lo = read_le [lo, hi]"
  by (simp add: get_u16_eq read_be_def read_le_def)

lemma or3_bytes:
  fixes b c d :: nat
  assumes "b < 2 ^ 8" "c < 2 ^ 8" "d < 2 ^ 8"
  shows "push_bit 16 b OR (push_bit 8 c OR d) = (b * 256 + c) * 256 + d"
proof -
  have 1: "push_bit 8 c + d < 2 ^ 16"
    using assms by (simp add: push_bit_eq_mult)
  show ?thesis
    unfolding push_bit_or_add [OF assms(3)] push_bit_or_add [OF 1]
    by (simp add: push_bit_eq_mult)
qed

lemma or4_bytes:
  fixes a b c d :: nat
  assumes "a < 2 ^ 8" "b < 2 ^ 8" "c < 2 ^ 8" "d < 2 ^ 8"
  shows "push_bit 24 a OR (push_bit 16 b OR (push_bit 8 c OR d)) =
         ((a * 256 + b) * 256 + c) * 256 + d"
proof -
  have 1: "push_bit 8 c + d < 2 ^ 16"
    using assms by (simp add: push_bit_eq_mult)
  have 2: "push_bit 16 b + (push_bit 8 c + d) < 2 ^ 24"
    using assms by (simp add: push_bit_eq_mult)
  show ?thesis
    unfolding push_bit_or_add [OF assms(4)] push_bit_or_add [OF 1] push_bit_or_add [OF 2]
    by (simp add: push_bit_eq_mult)
qed

lemma get_u24_be_eq:
  "get_u24_be vec i = (unat (vec ! i) * 256 + unat (vec ! (i + 1))) * 256 + unat (vec ! (i + 2))"
  unfolding get_u24_be_def
  by (rule or3_bytes) (rule unat_byte_less)+

lemma get_u32_be_eq:
  "get_u32_be vec i =
     ((unat (vec ! i) * 256 + unat (vec ! (i + 1))) * 256 + unat (vec ! (i + 2))) * 256
       + unat (vec ! (i + 3))"
  unfolding get_u32_be_def
  by (rule or4_bytes) (rule unat_byte_less)+

lemma get_u32_be_read_be:
  "i + 4 \<le> length vec \<Longrightarrow> get_u32_be vec i = read_be (slice vec i 4)"
  by (simp add: get_u32_be_eq slice_4 read_be_def)

section \<open>The initial size check\<close>

lemma file_size_check_None_iff:
  "file_size_check image_sz zip_sz = None \<longleftrightarrow>
     68 < image_sz \<and> 40 < zip_sz \<and> image_sz + zip_sz \<le> 209715200"
  by (simp add: file_size_check_def MAX_FILE_SIZE_def Let_def)

text \<open>
  C4. The claim takes 68 and 40 bytes to be the smallest sizes that pass. The check of
  the source compares with \<^verbatim>\<open>>\<close>, so both sizes fail it, while the choice of the
  diagnostic compares the other way round (\<^verbatim>\<open>MIN_IMAGE_SIZE > image_size\<close>) and finds
  neither file too small: a 68-byte image with a 40-byte archive is rejected with the
  diagnostic for an exceeded combined size.
\<close>

theorem file_size_check_at_minimum_sizes:
  "file_size_check 68 40 = Some File_Size_Error_Combined_Exceeds
   \<and> file_size_check 68 41 = Some File_Size_Error_Combined_Exceeds
   \<and> file_size_check 69 40 = Some File_Size_Error_Combined_Exceeds
   \<and> file_size_check 69 41 = None"
  by (simp add: file_size_check_def MAX_FILE_SIZE_def Let_def)

section \<open>The dimension check\<close>

text \<open>
  C8. For an image of colour type 2 or 6 that has passed the signature check and the scan
  for forbidden bytes, the image check succeeds exactly when the 16-bit big-endian values
  at indices 18-19 and 22-23 both lie between 68 and 899; otherwise it fails with the
  diagnostic for the dimensions.
\<close>

theorem truecolor_dimension_window:
  assumes "33 \<le> length Img"
    and "take 4 Img = PNG_TOP_SIG"
    and "drop (length Img - 8) Img = PNG_END_SIG"
    and "IHDR_bad_char_scan Img 18 = Inr ()"
    and "Img ! 25 = 2 \<or> Img ! 25 = 6"
  shows "(VALID_IMAGE_DIMS Img \<longleftrightarrow>
            68 \<le> read_be (slice Img 18 2) \<and> read_be (slice Img 18 2) \<le> 899
            \<and> 68 \<le> read_be (slice Img 22 2) \<and> read_be (slice Img 22 2) \<le> 899)
       \<and> check_image Img = (if VALID_IMAGE_DIMS Img then Inr () else Inl Image_File_Error_Dims)"
proof -
  have ct: "PNG_COLOR_TYPE Img = 2"
    using assms(5) by (auto simp: PNG_COLOR_TYPE_def)
  have w: "IMAGE_WIDTH_DIMS Img = read_be (slice Img 18 2)"
    using assms(1) by (simp add: IMAGE_WIDTH_DIMS_def get_u16_read_be slice_2)
  have h: "IMAGE_HEIGHT_DIMS Img = read_be (slice Img 22 2)"
    using assms(1) by (simp add: IMAGE_HEIGHT_DIMS_def get_u16_read_be slice_2)
  have dims: "VALID_IMAGE_DIMS Img \<longleftrightarrow>
      68 \<le> read_be (slice Img 18 2) \<and> read_be (slice Img 18 2) \<le> 899
      \<and> 68 \<le> read_be (slice Img 22 2) \<and> read_be (slice Img 22 2) \<le> 899"
    unfolding VALID_IMAGE_DIMS_def Let_def ct w h by auto
  have col: "VALID_COLOR_TYPE Img"
    by (simp add: VALID_COLOR_TYPE_def ct)
  have len: "length PNG_TOP_SIG = 4" "length PNG_END_SIG = 8"
    by (simp_all add: PNG_TOP_SIG_def PNG_END_SIG_def)
  have "check_image Img = (if VALID_IMAGE_DIMS Img then Inr () else Inl Image_File_Error_Dims)"
    using assms(1-4) col by (simp add: check_image_def len Let_def)
  with dims show ?thesis by blast
qed

lemmas check_image_eval =
  PNG_TOP_SIG_def PNG_END_SIG_def IHDR_bad_char_scan.simps BAD_CHAR_def slice_def read_be_def

theorem truecolor_dimension_window_witness:
  "check_image truecolor_899 = Inr () \<and> check_image truecolor_900 = Inl Image_File_Error_Dims"
proof -
  have a: "VALID_IMAGE_DIMS truecolor_899
      \<and> check_image truecolor_899 = (if VALID_IMAGE_DIMS truecolor_899 then Inr () else Inl Image_File_Error_Dims)"
    using truecolor_dimension_window [of truecolor_899]
    by (simp add: truecolor_899_def check_image_eval)
  have b: "\<not> VALID_IMAGE_DIMS truecolor_900
      \<and> check_image truecolor_900 = (if VALID_IMAGE_DIMS truecolor_900 then Inr () else Inl Image_File_Error_Dims)"
    using truecolor_dimension_window [of truecolor_900]
    by (simp add: truecolor_900_def check_image_eval)
  from a b show ?thesis by simp
qed

section \<open>The command line\<close>

lemma GET_EXT_eq: "GET_EXT name = drop (length name - 3) name"
  by (simp add: GET_EXT_def)

text \<open>
  C9 as the source has it. With three arguments, \<^verbatim>\<open>main\<close> calls \<^verbatim>\<open>Open_Files\<close>
  exactly when the last three characters of the image name are \<open>png\<close>, the last three
  characters of the archive name are \<open>zip\<close>, and both names match the regular expression;
  and whenever the last three characters of the image name are not \<open>png\<close> it exits with
  the diagnostic for the file extension, without calling \<^verbatim>\<open>Open_Files\<close>.
\<close>

theorem main_argument_validation:
  assumes "length argv = 3"
  shows "((\<exists>a b. main argv = Call_Open_Files a b) \<longleftrightarrow>
            drop (length (argv ! 1) - 3) (argv ! 1) = ''png''
            \<and> drop (length (argv ! 2) - 3) (argv ! 2) = ''zip''
            \<and> regex_match (argv ! 1) REG_EXP \<and> regex_match (argv ! 2) REG_EXP)
       \<and> (main argv = Call_Open_Files (argv ! 1) (argv ! 2) \<or> (\<exists>e. main argv = Exit_Failure e))
       \<and> (drop (length (argv ! 1) - 3) (argv ! 1) \<noteq> ''png''
            \<longrightarrow> main argv = Exit_Failure File_Type_Error)"
  using assms by (auto simp: main_def Let_def GET_EXT_eq)

lemmas regex_eval =
  regex_match_def REG_EXP_def Optional_def path_char_def alnum_char_def is_space_def in_range_def

theorem main_argument_validation_witness:
  "main [''pdvzip'', ''cover.png'', ''data.zip''] = Call_Open_Files ''cover.png'' ''data.zip''
   \<and> main [''pdvzip'', ''cover.jpg'', ''data.zip''] = Exit_Failure File_Type_Error"
proof -
  have "\<exists>a b. main [''pdvzip'', ''cover.png'', ''data.zip''] = Call_Open_Files a b"
    using main_argument_validation [of "[''pdvzip'', ''cover.png'', ''data.zip'']"]
    by (simp add: regex_eval)
  then have a: "main [''pdvzip'', ''cover.png'', ''data.zip''] = Call_Open_Files ''cover.png'' ''data.zip''"
    using main_argument_validation [of "[''pdvzip'', ''cover.png'', ''data.zip'']"]
    by auto
  have b: "main [''pdvzip'', ''cover.jpg'', ''data.zip''] = Exit_Failure File_Type_Error"
    using main_argument_validation [of "[''pdvzip'', ''cover.jpg'', ''data.zip'']"]
    by simp
  from a b show ?thesis by simp
qed

text \<open>
  The claim as the specification words it fails: a name that ends in \<open>png\<close> without
  the dot passes the extension filter, and \<^verbatim>\<open>Open_Files\<close> is called.
\<close>

theorem main_extension_without_dot:
  "main [''pdvzip'', ''xpng'', ''azip''] = Call_Open_Files ''xpng'' ''azip''
   \<and> drop (length ''xpng'' - 4) ''xpng'' \<noteq> ''.png''"
  by (simp add: main_def Let_def GET_EXT_def regex_eval)

section \<open>Facts about the linear search\<close>

lemma search_list_le: "search_list xs pat \<le> length xs"
  by (induction xs) auto

lemma search_list_hit:
  "search_list xs pat < length xs \<Longrightarrow> take (length pat) (drop (search_list xs pat) xs) = pat"
  by (induction xs) (auto split: if_splits)

lemma search_list_first:
  "p < search_list xs pat \<Longrightarrow> take (length pat) (drop p xs) \<noteq> pat"
proof (induction xs arbitrary: p)
  case Nil
  then show ?case by simp
next
  case (Cons x xs)
  show ?case
  proof (cases p)
    case 0
    with Cons.prems show ?thesis by (auto split: if_splits)
  next
    case (Suc q)
    with Cons.prems have "q < search_list xs pat"
      by (auto split: if_splits)
    from Cons.IH [OF this] Suc show ?thesis by simp
  qed
qed

lemma search_from_ge: "first \<le> search_from vec first pat"
  by (simp add: search_from_def)

lemma search_from_le: "first \<le> length vec \<Longrightarrow> search_from vec first pat \<le> length vec"
  using search_list_le [of "drop first vec" pat] by (simp add: search_from_def)

lemma search_from_hit:
  assumes "search_from vec first pat < length vec"
  shows "take (length pat) (drop (search_from vec first pat) vec) = pat"
proof -
  have "search_list (drop first vec) pat < length (drop first vec)"
    using assms by (simp add: search_from_def)
  from search_list_hit [OF this] show ?thesis
    by (simp add: search_from_def add.commute)
qed

lemma search_from_first:
  assumes "first \<le> p" "p < search_from vec first pat"
  shows "take (length pat) (drop p vec) \<noteq> pat"
proof -
  have "p - first < search_list (drop first vec) pat"
    using assms by (simp add: search_from_def)
  from search_list_first [OF this] assms(1) show ?thesis
    by simp
qed

lemma search_from_found:
  assumes "first \<le> p" "take (length pat) (drop p vec) = pat"
  shows "search_from vec first pat \<le> p"
  using search_from_first [OF assms(1), of vec pat] assms(2) by (meson not_le)

text \<open>The search looks at the bytes from \<open>first\<close> up to the end of the hit only.\<close>

lemma search_list_cong:
  assumes "length ys = length xs"
    and "\<And>j. j < length xs \<Longrightarrow> j < search_list xs pat + length pat \<Longrightarrow> ys ! j = xs ! j"
  shows "search_list ys pat = search_list xs pat"
  using assms
proof (induction xs arbitrary: ys)
  case Nil
  then show ?case by simp
next
  case (Cons x xs)
  then obtain y ys' where ys: "ys = y # ys'" "length ys' = length xs"
    by (cases ys) auto
  show ?case
  proof (cases "take (length pat) (x # xs) = pat")
    case True
    then have s0: "search_list (x # xs) pat = 0" by simp
    have "take (length pat) ys = take (length pat) (x # xs)"
    proof (rule nth_equalityI)
      show "length (take (length pat) ys) = length (take (length pat) (x # xs))"
        using Cons.prems(1) by simp
    next
      fix i assume "i < length (take (length pat) ys)"
      then have i: "i < length pat" "i < length (x # xs)"
        using Cons.prems(1) by simp_all
      with Cons.prems(2) [of i] s0 show "take (length pat) ys ! i = take (length pat) (x # xs) ! i"
        by simp
    qed
    with True ys show ?thesis by simp
  next
    case False
    then have sS: "search_list (x # xs) pat = Suc (search_list xs pat)" by simp
    have agree: "ys' ! j = xs ! j" if "j < length xs" "j < search_list xs pat + length pat" for j
      using Cons.prems(2) [of "Suc j"] that sS ys by simp
    have IH: "search_list ys' pat = search_list xs pat"
      by (rule Cons.IH [OF ys(2) agree])
    have "take (length pat) (y # ys') \<noteq> pat"
    proof
      assume eq: "take (length pat) (y # ys') = pat"
      have "take (length pat) (y # ys') = take (length pat) (x # xs)"
      proof (rule nth_equalityI)
        show "length (take (length pat) (y # ys')) = length (take (length pat) (x # xs))"
          using ys by simp
      next
        fix i assume "i < length (take (length pat) (y # ys'))"
        then have i: "i < length pat" "i < length (x # xs)"
          using ys by simp_all
        with Cons.prems(2) [of i] sS ys
        show "take (length pat) (y # ys') ! i = take (length pat) (x # xs) ! i"
          by simp
      qed
      with eq False show False by simp
    qed
    with IH ys sS show ?thesis by simp
  qed
qed

lemma search_from_cong:
  assumes "length vec' = length vec"
    and "\<And>j. first \<le> j \<Longrightarrow> j < length vec \<Longrightarrow> j < search_from vec first pat + length pat
           \<Longrightarrow> vec' ! j = vec ! j"
  shows "search_from vec' first pat = search_from vec first pat"
proof -
  have "search_list (drop first vec') pat = search_list (drop first vec) pat"
  proof (rule search_list_cong)
    show "length (drop first vec') = length (drop first vec)"
      using assms(1) by simp
  next
    fix j assume j: "j < length (drop first vec)"
      "j < search_list (drop first vec) pat + length pat"
    then have "vec' ! (first + j) = vec ! (first + j)"
      using assms(2) [of "first + j"] by (simp add: search_from_def)
    with j assms(1) show "drop first vec' ! j = drop first vec ! j"
      by simp
  qed
  then show ?thesis by (simp add: search_from_def)
qed

section \<open>Facts about the fixer's loop\<close>

lemma Value_Updater_LE32_Inr:
  assumes "Value_Updater vec c v 32 False = Inr vec'" "3 \<le> c"
  shows "c < length vec
     \<and> vec' = vec[c := of_nat (v div 2 ^ 24 mod 256), c - 1 := of_nat (v div 2 ^ 16 mod 256),
                  c - 2 := of_nat (v div 2 ^ 8 mod 256), c - 3 := of_nat (v mod 256)]"
proof -
  have c: "c < length vec"
  proof (rule ccontr)
    assume "\<not> c < length vec"
    then have "Value_Updater vec c v 32 False = Inl Out_Of_Range"
      by (simp add: Value_Updater.simps [of _ _ _ 32])
    with assms(1) show False by simp
  qed
  with assms Value_Updater_LE32 [of c vec v] show ?thesis by simp
qed

lemma Value_Updater_LE32_frame:
  assumes "Value_Updater vec c v 32 False = Inr vec'" "3 \<le> c"
  shows "length vec' = length vec" and "j < c - 3 \<or> c < j \<Longrightarrow> vec' ! j = vec ! j"
  using Value_Updater_LE32_Inr [OF assms] by auto

lemma Value_Updater_LE16_Inr:
  assumes "Value_Updater vec c v 16 False = Inr vec'" "1 \<le> c"
  shows "c < length vec
     \<and> vec' = vec[c := of_nat (v div 2 ^ 8 mod 256), c - 1 := of_nat (v mod 256)]"
proof -
  have c: "c < length vec"
  proof (rule ccontr)
    assume "\<not> c < length vec"
    then have "Value_Updater vec c v 16 False = Inl Out_Of_Range"
      by (simp add: Value_Updater.simps [of _ _ _ 16])
    with assms(1) show False by simp
  qed
  with assms Value_Updater_LE16 [of c vec v] show ?thesis by simp
qed

text \<open>
  The loop makes exactly \<open>zip_records\<close> writes, each at least 45 bytes after the one
  before, keeps the length of the vector and changes only the written fields.
\<close>

lemma fix_records_trace:
  "fix_records vec n off cli written = Inr (vec', written') \<Longrightarrow>
   \<exists>ws. written' = written @ ws \<and> length ws = n \<and> length vec' = length vec
      \<and> sorted_wrt (\<lambda>a b. a + 45 \<le> b) (map fst ws)
      \<and> (\<forall>c \<in> set (map fst ws). cli + 45 \<le> c \<and> c < length vec)
      \<and> (\<forall>j. (\<forall>c \<in> set (map fst ws). j < c - 3 \<or> c < j) \<longrightarrow> vec' ! j = vec ! j)"
proof (induction vec n off cli written arbitrary: vec' written' rule: fix_records.induct)
  case (1 vec n off cli written)
  show ?case
  proof (cases "n = 0")
    case True
    with "1.prems" show ?thesis
      by (simp add: fix_records.simps [of vec 0])
  next
    case False
    define off' where "off' = search_from vec (off + 1) ZIP_SIG"
    define c where "c = 45 + search_from vec cli START_CENTRAL_DIR_SIG"
    have rng: "\<not> (length vec < off + 1 \<or> length vec < cli)"
      using "1.prems" False by (auto simp: fix_records.simps [of vec n])
    obtain vec1 where vu: "Value_Updater vec c off' 32 False = Inr vec1"
      using "1.prems" False rng
      by (auto simp: fix_records.simps [of vec n] Let_def off'_def c_def split: sum.splits)
    have rec: "fix_records vec1 (n - 1) off' c (written @ [(c, off')]) = Inr (vec', written')"
      using "1.prems" False rng vu
      by (simp add: fix_records.simps [of vec n] Let_def off'_def c_def)
    have c3: "3 \<le> c" by (simp add: c_def)
    have cge: "cli + 45 \<le> c"
      using search_from_ge [of cli vec START_CENTRAL_DIR_SIG] by (simp add: c_def)
    have clt: "c < length vec"
      using Value_Updater_LE32_Inr [OF vu c3] by simp
    have len1: "length vec1 = length vec"
      using Value_Updater_LE32_frame(1) [OF vu c3] .
    from "1.IH" [OF False rng off'_def c_def vu rec]
    obtain ws where ws: "written' = (written @ [(c, off')]) @ ws" "length ws = n - 1"
      "length vec' = length vec1"
      "sorted_wrt (\<lambda>a b. a + 45 \<le> b) (map fst ws)"
      "\<forall>d \<in> set (map fst ws). c + 45 \<le> d \<and> d < length vec1"
      "\<forall>j. (\<forall>d \<in> set (map fst ws). j < d - 3 \<or> d < j) \<longrightarrow> vec' ! j = vec1 ! j"
      by blast
    have frame: "vec' ! j = vec ! j"
      if "\<forall>d \<in> set (map fst ((c, off') # ws)). j < d - 3 \<or> d < j" for j
    proof -
      have "vec' ! j = vec1 ! j" using ws(6) that by simp
      also have "vec1 ! j = vec ! j"
        using Value_Updater_LE32_frame(2) [OF vu c3, of j] that by simp
      finally show ?thesis .
    qed
    show ?thesis
    proof (intro exI [of _ "(c, off') # ws"] conjI)
      show "written' = written @ (c, off') # ws" using ws(1) by simp
      show "length ((c, off') # ws) = n" using ws(2) False by simp
      show "length vec' = length vec" using ws(3) len1 by simp
      show "sorted_wrt (\<lambda>a b. a + 45 \<le> b) (map fst ((c, off') # ws))"
        using ws(4,5) by auto
      show "\<forall>d \<in> set (map fst ((c, off') # ws)). cli + 45 \<le> d \<and> d < length vec"
        using ws(5) cge clt len1 by auto
      show "\<forall>j. (\<forall>d \<in> set (map fst ((c, off') # ws)). j < d - 3 \<or> d < j) \<longrightarrow> vec' ! j = vec ! j"
        using frame by blast
    qed
  qed
qed

section \<open>The offset fixer\<close>

lemma Fix_Zip_Offset_trace_Inr:
  assumes "Fix_Zip_Offset_trace vec idx = Inr (vec', written)"
  obtains vec1 vec2 where
    "idx \<le> length vec"
    "END_CENTRAL_DIR_INDEX vec idx + 11 < length vec"
    "fix_records vec (zip_records_of vec idx) idx
       (if START_CENTRAL_DIR_INDEX vec idx = 0 then 2 ^ 64 - 1
        else START_CENTRAL_DIR_INDEX vec idx - 1) [] = Inr (vec1, written)"
    "Value_Updater vec1 (END_CENTRAL_DIR_INDEX vec idx + 19) (START_CENTRAL_DIR_INDEX vec idx)
       32 False = Inr vec2"
    "END_CENTRAL_DIR_INDEX vec idx + 21 < length vec2"
    "Value_Updater vec2 (END_CENTRAL_DIR_INDEX vec idx + 21)
       (16 + get_u16 (vec2 ! (END_CENTRAL_DIR_INDEX vec idx + 21))
               (vec2 ! (END_CENTRAL_DIR_INDEX vec idx + 20))) 16 False = Inr vec'"
proof -
  from assms have 1: "idx \<le> length vec" "END_CENTRAL_DIR_INDEX vec idx + 11 < length vec"
    by (auto simp: Fix_Zip_Offset_trace_def Let_def split: if_splits)
  from assms 1 obtain vec1 where 2:
    "fix_records vec (zip_records_of vec idx) idx
       (if START_CENTRAL_DIR_INDEX vec idx = 0 then 2 ^ 64 - 1
        else START_CENTRAL_DIR_INDEX vec idx - 1) [] = Inr (vec1, written)"
    by (auto simp: Fix_Zip_Offset_trace_def zip_records_of_def Let_def add.commute
        split: if_splits sum.splits prod.splits)
  from assms 1 2 obtain vec2 where 3:
    "Value_Updater vec1 (END_CENTRAL_DIR_INDEX vec idx + 19) (START_CENTRAL_DIR_INDEX vec idx)
       32 False = Inr vec2"
    by (auto simp: Fix_Zip_Offset_trace_def zip_records_of_def Let_def add.commute
        split: if_splits sum.splits prod.splits)
  from assms 1 2 3 have 4: "END_CENTRAL_DIR_INDEX vec idx + 21 < length vec2"
    "Value_Updater vec2 (END_CENTRAL_DIR_INDEX vec idx + 21)
       (16 + get_u16 (vec2 ! (END_CENTRAL_DIR_INDEX vec idx + 21))
               (vec2 ! (END_CENTRAL_DIR_INDEX vec idx + 20))) 16 False = Inr vec'"
    by (auto simp: Fix_Zip_Offset_trace_def zip_records_of_def Let_def add.commute
        split: if_splits sum.splits prod.splits)
  from 1 2 3 4 that show thesis by blast
qed

lemma zip_records_of_read_le:
  "END_CENTRAL_DIR_INDEX vec idx + 11 < length vec \<Longrightarrow>
   zip_records_of vec idx = read_le (slice vec (END_CENTRAL_DIR_INDEX vec idx + 10) 2)"
  by (simp add: zip_records_of_def Let_def get_u16_read_le slice_2 add.commute)

lemmas fix_eval =
  Fix_Zip_Offset_trace_def START_CENTRAL_DIR_INDEX_def END_CENTRAL_DIR_INDEX_def
  START_CENTRAL_DIR_SIG_def END_CENTRAL_DIR_SIG_def ZIP_SIG_def search_from_def
  get_u16_def fix_records.simps Value_Updater.simps Let_def

text \<open>
  The claim as the specification words it fails: on this buffer the bytes at offsets 11
  and 12 from the signature hold 13056, and the fixer makes one write.
\<close>

theorem Fix_Zip_Offset_count_bytes_11_12:
  "Fix_Zip_Offset_trace zip_chunk_example 0 = Inr (zip_chunk_example_fixed, [(84, 4)])
   \<and> END_CENTRAL_DIR_INDEX zip_chunk_example 0 = 90
   \<and> read_le (slice zip_chunk_example (90 + 11) 2) = 13056
   \<and> read_le (slice zip_chunk_example (90 + 10) 2) = 1"
  by (simp add: zip_chunk_example_def zip_chunk_example_fixed_def fix_eval slice_def
      read_le_def read_be_def)

lemma zip_chunk_comment_example_run:
  "Fix_Zip_Offset_trace zip_chunk_comment_example 0
     = Inr (zip_chunk_comment_example_fixed, [(84, 4)])"
  by (simp add: zip_chunk_comment_example_def zip_chunk_comment_example_fixed_def fix_eval)

section \<open>The script composer\<close>

lemma length_Script_Template: "length Script_Template = 274"
  by (simp add: Script_Template_def)

lemma length_App_Vec_init: "length App_Vec_init = 33"
  by (simp add: App_Vec_init_def)

lemma Script_Template_quotes: "Script_Template ! 119 = 0x22" "Script_Template ! 120 = 0x22"
  by (simp_all add: Script_Template_def)

lemma App_Vec_init_25: "App_Vec_init ! 25 = bytes_of ''xdg-open ''"
  by (simp add: App_Vec_init_def)

lemma find_last_of_dot:
  assumes "p < length s" "s ! p = c"
  shows "p \<le> find_last_of s c" "find_last_of s c < length s"
proof -
  let ?t = "takeWhile (\<lambda>x. x \<noteq> c) (rev s)"
  have mem: "c \<in> set s"
    using assms by auto
  have "?t \<noteq> rev s"
    using mem by (simp add: takeWhile_eq_all_conv)
  moreover have "?t = take (length ?t) (rev s)"
    by (rule takeWhile_eq_take)
  ultimately have "length ?t \<noteq> length (rev s)"
    by (metis take_all order_refl)
  with length_takeWhile_le [of "\<lambda>x. x \<noteq> c" "rev s"] have lt: "length ?t < length s"
    by simp
  have "length ?t \<le> length s - 1 - p"
  proof (rule ccontr)
    assume "\<not> length ?t \<le> length s - 1 - p"
    then have i: "length s - 1 - p < length ?t" by simp
    then have "?t ! (length s - 1 - p) \<in> set ?t"
      by (rule nth_mem)
    then have "?t ! (length s - 1 - p) \<noteq> c"
      by (auto dest: set_takeWhileD)
    moreover have "?t ! (length s - 1 - p) = rev s ! (length s - 1 - p)"
      using i by (rule takeWhile_nth)
    moreover have "rev s ! (length s - 1 - p) = s ! p"
      using assms(1) by (simp add: rev_nth)
    ultimately show False using assms(2) by simp
  qed
  then show "p \<le> find_last_of s c"
    using mem assms(1) by (simp add: find_last_of_def)
  show "find_last_of s c < length s"
    using mem lt by (simp add: find_last_of_def)
qed

lemma match_extension_none:
  assumes "26 \<le> length av" "\<forall>j<26. av ! j \<noteq> ext" "i \<le> 26"
  shows "match_extension av ext i = Inr 26"
  using assms(3)
proof (induction "26 - i" arbitrary: i)
  case 0
  then have "i = 26" by simp
  then show ?case by (simp add: match_extension.simps [of _ _ 26])
next
  case (Suc n)
  then have i: "i < 26" by simp
  then have "match_extension av ext i = match_extension av ext (i + 1)"
    using assms(1,2) by (subst match_extension.simps) simp
  also have "\<dots> = Inr 26"
    using Suc i by (intro Suc.hyps) simp_all
  finally show ?case .
qed

lemma App_Vec_init_long:
  "\<forall>j<26. j < 20 \<or> length (App_Vec_init ! j) \<noteq> 3"
  by (simp add: eval_nat_numeral All_less_Suc App_Vec_init_def bytes_of_def)

lemma App_Vec_init_no_match:
  assumes "length ext = 3" "ext \<notin> set (take 19 App_Vec_init)" "ext \<noteq> bytes_of ''.sh''"
  shows "\<forall>j<26. (App_Vec_init @ [name]) ! j \<noteq> ext"
proof (intro allI impI)
  fix j :: nat assume j: "j < 26"
  then have nth: "(App_Vec_init @ [name]) ! j = App_Vec_init ! j"
    by (simp add: nth_append length_App_Vec_init)
  consider "j < 19" | "j = 19" | "20 \<le> j" by linarith
  then show "(App_Vec_init @ [name]) ! j \<noteq> ext"
  proof cases
    case 1
    then have "take 19 App_Vec_init ! j = App_Vec_init ! j"
      "j < length (take 19 App_Vec_init)"
      by (simp_all add: length_App_Vec_init)
    then have "App_Vec_init ! j \<in> set (take 19 App_Vec_init)"
      by (metis nth_mem)
    with assms(2) nth show ?thesis by auto
  next
    case 2
    have "App_Vec_init ! 19 = bytes_of ''.sh''"
      by (simp add: App_Vec_init_def)
    with 2 assms(3) nth show ?thesis by simp
  next
    case 3
    with App_Vec_init_long j have "length (App_Vec_init ! j) \<noteq> 3" by auto
    with assms(1) nth show ?thesis by auto
  qed
qed

lemma length_insert_at [simp]:
  "pos \<le> length vec \<Longrightarrow> length (insert_at vec pos xs) = length vec + length xs"
  by (simp add: insert_at_def)

lemma nth_insert_at_before:
  "n < pos \<Longrightarrow> pos \<le> length vec \<Longrightarrow> insert_at vec pos xs ! n = vec ! n"
  by (simp add: insert_at_def nth_append)

lemma take_insert_at_before:
  "n \<le> pos \<Longrightarrow> pos \<le> length vec \<Longrightarrow> take n (insert_at vec pos xs) = take n vec"
  by (simp add: insert_at_def min_def)

lemma insert_strings_unmatched:
  "insert_strings Script_Template (App_Vec_init @ [name])
     (Sequence_Vec_init[15 := FOLDER_INVOKE_ITEM, 17 := BASH_XDG_OPEN]) 14 10 14 =
   Inr (insert_at (insert_at (insert_at (insert_at Script_Template 241 name)
          239 (App_Vec_init ! 26)) 120 name) 119 (App_Vec_init ! 25))"
  by (simp add: insert_strings.simps Sequence_Vec_init_def FOLDER_INVOKE_ITEM_def BASH_XDG_OPEN_def
      length_Script_Template length_App_Vec_init nth_append)

lemma posix_segment_unmatched:
  fixes X :: "byte list"
  assumes "121 \<le> length X"
  shows "slice (insert_at (insert_at X 120 name) 119 xdg) 119 (length xdg + length name + 2)
           = xdg @ [X ! 119] @ name @ [X ! 120]"
proof -
  have t: "take 120 X = take 119 X @ [X ! 119]"
    using assms by (simp add: take_Suc_conv_app_nth [symmetric] eval_nat_numeral)
  have d: "drop 120 X = X ! 120 # drop 121 X"
    using assms by (simp add: Cons_nth_drop_Suc [symmetric] eval_nat_numeral del: drop_Suc_Cons)
  have l: "length (take 119 X) = 119"
    using assms by simp
  have "insert_at (insert_at X 120 name) 119 xdg
          = take 119 X @ xdg @ [X ! 119] @ name @ X ! 120 # drop 121 X"
    using assms l unfolding insert_at_def t d by (simp add: min_def)
  then show ?thesis
    using l by (simp add: slice_def)
qed

text \<open>
  C3 as the source has it, for the POSIX segment. When the name of the first entry has a
  \<open>.\<close> after position 0, its last three characters are none of the 19 extension keys and
  not \<open>.sh\<close>, and it does not end in \<open>/\<close>, the composed script has, from index 119, the
  command \<open>xdg-open\<close> followed by the name in double quotes.
\<close>

theorem unmatched_extension_posix_launcher:
  assumes ok: "compose_script Zip args_linux args_windows = Inr script"
    and dot: "\<exists>p. 0 < p \<and> p < length (first_zip_name_of Zip) \<and> first_zip_name_of Zip ! p = 0x2E"
    and keys: "slice (first_zip_name_of Zip) (length (first_zip_name_of Zip) - 3) 3
                 \<notin> set (take 19 App_Vec_init)"
    and sh: "slice (first_zip_name_of Zip) (length (first_zip_name_of Zip) - 3) 3 \<noteq> bytes_of ''.sh''"
    and folder: "last (first_zip_name_of Zip) \<noteq> 0x2F"
  shows "slice script 119 (length (first_zip_name_of Zip) + 11)
           = bytes_of ''xdg-open '' @ [0x22] @ first_zip_name_of Zip @ [0x22]"
proof -
  define name where "name = first_zip_name_of Zip"
  have name: "slice Zip 38 (unat (Zip ! 34)) = name"
    by (simp add: name_def first_zip_name_of_def)
  have g: "34 < length Zip" "38 + unat (Zip ! 34) \<le> length Zip" "3 \<le> unat (Zip ! 34)"
    using ok by (auto simp: compose_script_def Let_def split: if_splits)
  have len_name: "length name = unat (Zip ! 34)"
    using g by (simp add: name [symmetric] slice_def)
  have len_ext: "length (slice name (length name - 3) 3) = 3"
    using g len_name by (simp add: slice_def)
  have m: "match_extension (App_Vec_init @ [name]) (slice name (length name - 3) 3) 0 = Inr 26"
    using keys sh
    by (intro match_extension_none App_Vec_init_no_match len_ext)
      (simp_all add: name_def length_App_Vec_init)
  from dot obtain p where p: "0 < p" "p < length name" "name ! p = 0x2E"
    unfolding name_def by blast
  have chk: "\<not> (find_last_of name 0x2E = 0 \<or> find_last_of name 0x2E > length name)"
    using find_last_of_dot [OF p(2,3)] p(1) by simp
  have sel: "select_sequence 26 (App_Vec_init @ [name]) name =
      (App_Vec_init @ [name], Sequence_Vec_init[15 := FOLDER_INVOKE_ITEM, 17 := BASH_XDG_OPEN], 10, 14)"
    by (simp add: select_sequence_def VIDEO_AUDIO_def PDF_def FOLDER_INVOKE_ITEM_def)
  have "compose_script Zip args_linux args_windows =
      insert_strings Script_Template (App_Vec_init @ [name])
        (Sequence_Vec_init[15 := FOLDER_INVOKE_ITEM, 17 := BASH_XDG_OPEN]) 14 10 14"
    using g chk unfolding compose_script_def Let_def name m
    by (simp add: sel)
  with ok have script: "script =
      insert_at (insert_at (insert_at (insert_at Script_Template 241 name)
          239 (App_Vec_init ! 26)) 120 name) 119 (App_Vec_init ! 25)"
    by (simp add: insert_strings_unmatched)
  define X where "X = insert_at (insert_at Script_Template 241 name) 239 (App_Vec_init ! 26)"
  have X: "121 \<le> length X" "X ! 119 = 0x22" "X ! 120 = 0x22"
    by (simp_all add: X_def length_Script_Template nth_insert_at_before Script_Template_quotes)
  have "length (bytes_of ''xdg-open '') = 9"
    by (simp add: bytes_of_def)
  with posix_segment_unmatched [OF X(1), of name "bytes_of ''xdg-open ''"] X(2,3)
  show ?thesis
    unfolding script X_def [symmetric] App_Vec_init_25 name_def [symmetric]
    by (simp add: add.commute)
qed

lemmas compose_eval =
  compose_script_def Let_def slice_def find_last_of_def npos_def match_extension.simps
  App_Vec_init_def bytes_of_def select_sequence_def Sequence_Vec_init_def insert_strings.simps
  insert_at_def Script_Template_def
  VIDEO_AUDIO_def PDF_def PYTHON_def POWERSHELL_def EXECUTABLE_def BASH_XDG_OPEN_def
  FOLDER_INVOKE_ITEM_def START_B_def WIN_POWERSHELL_def PREPEND_FIRST_ZIP_NAME_REC_def

lemma compose_script_txt: "compose_script zip_vec_txt [] [] = Inr script_txt"
  by (simp add: zip_vec_txt_def script_txt_def compose_eval)

theorem unmatched_extension_posix_launcher_witness:
  "first_zip_name_of zip_vec_txt = bytes_of ''a.txt''
   \<and> slice script_txt 119 16 = bytes_of ''xdg-open '' @ [0x22] @ bytes_of ''a.txt'' @ [0x22]"
proof -
  have n: "first_zip_name_of zip_vec_txt = bytes_of ''a.txt''"
    by (simp add: first_zip_name_of_def zip_vec_txt_def slice_def bytes_of_def)
  have "slice script_txt 119 (length (first_zip_name_of zip_vec_txt) + 11)
           = bytes_of ''xdg-open '' @ [0x22] @ first_zip_name_of zip_vec_txt @ [0x22]"
    by (rule unmatched_extension_posix_launcher [OF compose_script_txt])
      (simp_all add: n bytes_of_def slice_def App_Vec_init_def nth_Cons' exI [of _ 1])
  then show ?thesis
    by (simp add: n) (simp add: bytes_of_def)
qed

text \<open>
  The claim as the specification words it fails. For the name \<open>a.sh\<close>, whose extension is
  none of the 19 keys, the POSIX segment starts with \<open>chmod +x\<close>; and for \<open>a.txt\<close> the
  Windows segment uses \<open>powershell;Invoke-Item\<close>, not \<open>start /b\<close>.
\<close>

theorem unmatched_extension_not_default:
  "compose_script zip_vec_sh [] [] = Inr script_sh
   \<and> first_zip_name_of zip_vec_sh = bytes_of ''a.sh''
   \<and> slice script_sh 119 9 = bytes_of ''chmod +x ''
   \<and> compose_script zip_vec_txt [] [] = Inr script_txt
   \<and> first_zip_name_of zip_vec_txt = bytes_of ''a.txt''
   \<and> slice script_txt 253 23 = bytes_of ''powershell;Invoke-Item ''"
proof -
  have 1: "compose_script zip_vec_sh [] [] = Inr script_sh"
    by (simp add: zip_vec_sh_def script_sh_def compose_eval)
  have 2: "first_zip_name_of zip_vec_sh = bytes_of ''a.sh''"
    by (simp add: first_zip_name_of_def zip_vec_sh_def slice_def bytes_of_def)
  have 3: "slice script_sh 119 9 = bytes_of ''chmod +x ''"
    by (simp add: script_sh_def slice_def bytes_of_def)
  have 4: "compose_script zip_vec_txt [] [] = Inr script_txt"
    by (simp add: zip_vec_txt_def script_txt_def compose_eval)
  have 5: "first_zip_name_of zip_vec_txt = bytes_of ''a.txt''"
    by (simp add: first_zip_name_of_def zip_vec_txt_def slice_def bytes_of_def)
  have 6: "slice script_txt 253 23 = bytes_of ''powershell;Invoke-Item ''"
    by (simp add: script_txt_def slice_def bytes_of_def)
  from 1 2 3 4 5 6 show ?thesis by blast
qed

section \<open>The stages of a build\<close>

lemma length_ZIP_SIG: "length ZIP_SIG = 4"
  by (simp add: ZIP_SIG_def)

lemma build_Inr:
  assumes "build img zipf al aw = Inr out"
  obtains Temp zv s0 pdv' where
    "file_size_check (length img) (length zipf) = None"
    "check_image img = Inr ()"
    "prune_image img (length img) = Inr Temp"
    "frame_zip zipf True = Inr zv"
    "34 < length zv" "slice zv 8 4 = ZIP_SIG" "4 \<le> unat (zv ! 34)"
    "compose_script zv al aw = Inr s0"
    "finish_script \<lparr>Image_Vec = Temp, Zip_Vec = zv, Script_Vec = s0, image_name = [],
        zip_name = [], image_size = length Temp, zip_size = length zv, script_size = 0,
        combined_file_size = length img + length zipf, big_endian = True\<rparr> = Inr pdv'"
    "Combine_Vectors pdv' = Inr out"
proof -
  from assms have 1: "file_size_check (length img) (length zipf) = None"
    by (auto simp: build_def Open_Files_def pdv0_def Let_def split: option.splits)
  from assms 1 have 2: "check_image img = Inr ()"
    by (auto simp: build_def Open_Files_def pdv0_def Check_Image_File_def Let_def
        split: sum.splits)
  from assms 1 2 obtain Temp where 3: "prune_image img (length img) = Inr Temp"
    by (auto simp: build_def Open_Files_def pdv0_def Check_Image_File_def Erase_Image_Chunks_def
        Let_def split: sum.splits)
  from assms 1 2 3 have a: "Check_Zip_File
      \<lparr>Image_Vec = Temp, Zip_Vec = [], Script_Vec = [], image_name = [],
        zip_name = [], image_size = length Temp, zip_size = length zipf, script_size = 0,
        combined_file_size = length img + length zipf, big_endian = True\<rparr> zipf al aw = Inr out"
    by (simp add: build_def Open_Files_def pdv0_def Check_Image_File_def Erase_Image_Chunks_def
        Let_def)
  then obtain zv where 4: "frame_zip zipf True = Inr zv"
    by (auto simp: Check_Zip_File_def split: sum.splits)
  from a 4 have 5: "34 < length zv" "slice zv 8 4 = ZIP_SIG" "4 \<le> unat (zv ! 34)"
    by (auto simp: Check_Zip_File_def Let_def length_ZIP_SIG split: if_splits)
  from a 4 5 have b: "Complete_Extraction_Script
      \<lparr>Image_Vec = Temp, Zip_Vec = zv, Script_Vec = [], image_name = [],
        zip_name = [], image_size = length Temp, zip_size = length zv, script_size = 0,
        combined_file_size = length img + length zipf, big_endian = True\<rparr> al aw = Inr out"
    by (auto simp: Check_Zip_File_def Let_def length_ZIP_SIG split: if_splits)
  then obtain s0 where 6: "compose_script zv al aw = Inr s0"
    by (auto simp: Complete_Extraction_Script_def split: sum.splits)
  from b 6 obtain pdv' where 7:
    "finish_script \<lparr>Image_Vec = Temp, Zip_Vec = zv, Script_Vec = s0, image_name = [],
        zip_name = [], image_size = length Temp, zip_size = length zv, script_size = 0,
        combined_file_size = length img + length zipf, big_endian = True\<rparr> = Inr pdv'"
    "Combine_Vectors pdv' = Inr out"
    by (auto simp: Complete_Extraction_Script_def split: sum.splits)
  from 1 2 3 4 5 6 7 that show thesis by blast
qed

lemma build_stages:
  assumes "file_size_check (length img) (length zipf) = None"
    "check_image img = Inr ()"
    "prune_image img (length img) = Inr Temp"
    "frame_zip zipf True = Inr zv"
    "34 < length zv" "slice zv 8 4 = ZIP_SIG" "4 \<le> unat (zv ! 34)"
    "compose_script zv al aw = Inr s0"
    "finish_script \<lparr>Image_Vec = Temp, Zip_Vec = zv, Script_Vec = s0, image_name = [],
        zip_name = [], image_size = length Temp, zip_size = length zv, script_size = 0,
        combined_file_size = length img + length zipf, big_endian = True\<rparr> = Inr pdv'"
    "Combine_Vectors pdv' = Inr out"
  shows "build img zipf al aw = Inr out"
  using assms
  by (simp add: build_def Open_Files_def pdv0_def Check_Image_File_def Erase_Image_Chunks_def
      Check_Zip_File_def Complete_Extraction_Script_def Let_def length_ZIP_SIG)

section \<open>The writer in terms of \<open>take\<close> and \<open>drop\<close>\<close>

lemma update2_append:
  "i + 2 \<le> length xs \<Longrightarrow> xs[i := a, i + 1 := b] = take i xs @ [a, b] @ drop (i + 2) xs"
  by (auto simp: list_eq_iff_nth_eq nth_append nth_list_update nth_Cons' less_diff_conv
      intro!: arg_cong [where f = "nth xs"])

lemma update4_append:
  "i + 4 \<le> length xs \<Longrightarrow>
   xs[i := a, i + 1 := b, i + 2 := c, i + 3 := d] = take i xs @ [a, b, c, d] @ drop (i + 4) xs"
  by (auto simp: list_eq_iff_nth_eq nth_append nth_list_update nth_Cons' less_diff_conv
      intro!: arg_cong [where f = "nth xs"])

lemma Value_Updater_BE16_append:
  "i + 2 \<le> length vec \<Longrightarrow>
   Value_Updater vec i v 16 True = Inr (take i vec @ be_bytes16 v @ drop (i + 2) vec)"
  by (simp only: Value_Updater_BE16 update2_append be_bytes16_def)

lemma Value_Updater_BE32_append:
  "i + 4 \<le> length vec \<Longrightarrow>
   Value_Updater vec i v 32 True = Inr (take i vec @ be_bytes32 v @ drop (i + 4) vec)"
  by (simp only: Value_Updater_BE32 update4_append be_bytes32_def)

lemma Value_Updater_BE16_Inr:
  assumes "Value_Updater vec i v 16 True = Inr vec'"
  shows "i + 2 \<le> length vec \<and> vec' = take i vec @ be_bytes16 v @ drop (i + 2) vec"
proof -
  have "i + 2 \<le> length vec"
  proof (rule ccontr)
    assume "\<not> i + 2 \<le> length vec"
    then have "Value_Updater vec i v 16 True = Inl Out_Of_Range"
      by (simp add: Value_Updater.simps [of _ _ _ 16] Value_Updater.simps [of _ _ _ 8] Let_def)
    with assms show False by simp
  qed
  with assms show ?thesis by (simp add: Value_Updater_BE16_append)
qed

lemma Value_Updater_BE32_Inr:
  assumes "Value_Updater vec i v 32 True = Inr vec'"
  shows "i + 4 \<le> length vec \<and> vec' = take i vec @ be_bytes32 v @ drop (i + 4) vec"
proof -
  have "i + 4 \<le> length vec"
  proof (rule ccontr)
    assume "\<not> i + 4 \<le> length vec"
    then have "Value_Updater vec i v 32 True = Inl Out_Of_Range"
      by (simp add: Value_Updater.simps [of _ _ _ 32] Value_Updater.simps [of _ _ _ 24]
          Value_Updater.simps [of _ _ _ 16] Value_Updater.simps [of _ _ _ 8] Let_def)
    with assms show False by simp
  qed
  with assms show ?thesis by (simp add: Value_Updater_BE32_append)
qed

lemma length_be_bytes [simp]: "length (be_bytes16 v) = 2" "length (be_bytes32 v) = 4"
  by (simp_all add: be_bytes16_def be_bytes32_def)

lemma read_be_be_bytes16: "read_be (be_bytes16 v) = v mod 2 ^ 16"
  by (simp add: be_bytes16_def read_be_def unat_of_nat be16_value)

lemma read_be_be_bytes32: "read_be (be_bytes32 v) = v mod 2 ^ 32"
  by (simp add: be_bytes32_def read_be_def unat_of_nat) (insert be32_value [of v], simp)

section \<open>The framed archive\<close>

lemma frame_zip_eq:
  "frame_zip zipf True = Inr (be_bytes32 (length zipf) @ IDAT_SIG @ zipf @ [0, 0, 0, 0])"
  by (simp add: frame_zip_def insert_at_def Let_def Value_Updater_BE32_append IDAT_SIG_def
      bytes_of_def)

section \<open>The forbidden bytes\<close>

lemma IHDR_bad_char_scan_Inr:
  "IHDR_bad_char_scan Img k = Inr () \<Longrightarrow> k \<le> 32 \<Longrightarrow> k < i \<Longrightarrow> i \<le> 32 \<Longrightarrow>
   i < length Img \<and> Img ! i \<notin> set BAD_CHAR"
proof (induction Img k rule: IHDR_bad_char_scan.induct)
  case (1 Img k)
  have k: "k \<noteq> 32" using "1.prems" by simp
  from "1.prems"(1) k have a: "k + 1 < length Img" "Img ! (k + 1) \<notin> set BAD_CHAR"
    "IHDR_bad_char_scan Img (k + 1) = Inr ()"
    by (auto simp: IHDR_bad_char_scan.simps [of Img k] split: if_splits)
  show ?case
  proof (cases "i = k + 1")
    case True
    with a show ?thesis by simp
  next
    case False
    with "1.prems" have "k + 1 < i" "k + 1 \<le> 32" by simp_all
    with "1.IH" [OF k _ _ a(3)] a "1.prems" show ?thesis by simp
  qed
qed

lemma check_image_no_bad_char:
  assumes "check_image Img = Inr ()" "19 \<le> i" "i \<le> 32"
  shows "i < length Img \<and> Img ! i \<notin> set BAD_CHAR"
proof -
  from assms(1) have "IHDR_bad_char_scan Img 18 = Inr ()"
    by (auto simp: check_image_def Let_def split: if_splits sum.splits)
  from IHDR_bad_char_scan_Inr [OF this, of i] assms(2,3) show ?thesis by simp
qed

lemma bad_char_plus_ten: "(b :: byte) \<in> set BAD_CHAR \<Longrightarrow> b + 10 \<notin> set BAD_CHAR"
  by (auto simp: BAD_CHAR_def)

section \<open>The pruner keeps the first 33 bytes\<close>

lemma copy_idat_chunks_prefix:
  "copy_idat_chunks Img sz idx Temp = Inr Temp' \<Longrightarrow> \<exists>ys. Temp' = Temp @ ys"
proof (induction Img sz idx Temp rule: copy_idat_chunks.induct)
  case (1 Img sz idx Temp)
  show ?case
  proof (cases "sz = idx + 4")
    case True
    with "1.prems" show ?thesis by (subst (asm) copy_idat_chunks.simps) simp
  next
    case False
    with "1.prems" have g: "\<not> length Img < idx + 4"
      "\<not> length Img < idx + (get_u32_be Img idx + 12)"
      by (auto simp: copy_idat_chunks.simps [of Img sz idx] Let_def split: if_splits)
    with "1.prems" False have
      "copy_idat_chunks Img sz (search_from Img (idx + 6) IDAT_SIG - 4)
         (Temp @ slice Img idx (get_u32_be Img idx + 12)) = Inr Temp'"
      by (simp add: copy_idat_chunks.simps [of Img sz idx] Let_def)
    from "1.IH" [OF False g(1) refl g(2) this] show ?thesis by auto
  qed
qed

lemma prune_image_Inr:
  assumes "prune_image Img sz = Inr Temp"
  obtains T1 T2 where
    "33 \<le> length Img"
    "4 \<le> search_from Img 0 IDAT_SIG"
    "search_from Img 0 IDAT_SIG - 4 + get_u32_be Img (search_from Img 0 IDAT_SIG - 4) + 12
       \<le> length Img"
    "get_u32_be Img (search_from Img 0 IDAT_SIG - 4
        + get_u32_be Img (search_from Img 0 IDAT_SIG - 4) + 8)
       = unat (Crc (slice Img (search_from Img 0 IDAT_SIG - 4 + 4)
                    (get_u32_be Img (search_from Img 0 IDAT_SIG - 4) + 4)))"
    "if Img ! 25 = 3
     then 4 \<le> search_from Img 0 PLTE_SIG
        \<and> search_from Img 0 PLTE_SIG - 4 < search_from Img 0 IDAT_SIG - 4
        \<and> search_from Img 0 PLTE_SIG - 4
             + (get_u24_be Img (search_from Img 0 PLTE_SIG - 4 + 1) + 12) \<le> length Img
        \<and> T1 = take 33 Img @ slice Img (search_from Img 0 PLTE_SIG - 4)
                  (get_u24_be Img (search_from Img 0 PLTE_SIG - 4 + 1) + 12)
     else T1 = take 33 Img"
    "copy_idat_chunks Img sz (search_from Img 0 IDAT_SIG - 4) T1 = Inr T2"
    "Temp = T2 @ drop (length Img - 12) Img"
proof -
  from assms have l: "33 \<le> length Img"
    by (auto simp: prune_image_def split: if_splits)
  then have t25: "take 33 Img ! 25 = Img ! 25" by simp
  define idx where "idx = search_from Img 0 IDAT_SIG - 4"
  define P where "P = (if Img ! 25 = 3 then
        (let plte_pos = search_from Img 0 PLTE_SIG
         in if plte_pos < 4 then Inl Out_Of_Range
            else
              let PLTE_CHUNK_INDEX = plte_pos - 4
              in if idx > PLTE_CHUNK_INDEX then
                   (let CHUNK_SIZE = get_u24_be Img (PLTE_CHUNK_INDEX + 1)
                    in if length Img < PLTE_CHUNK_INDEX + (CHUNK_SIZE + 12)
                       then Inl Out_Of_Range
                       else Inr (take 33 Img @ slice Img PLTE_CHUNK_INDEX (CHUNK_SIZE + 12)))
                 else Inl Image_File_Error_Plte_Missing)
      else Inr (take 33 Img))"
  from assms l have a: "4 \<le> search_from Img 0 IDAT_SIG"
    "idx + get_u32_be Img idx + 12 \<le> length Img"
    "get_u32_be Img (idx + get_u32_be Img idx + 8)
       = unat (Crc (slice Img (idx + 4) (get_u32_be Img idx + 4)))"
    unfolding prune_image_def Let_def idx_def
    by (auto split: if_splits)
  from assms l a have b:
    "(case P of Inl e \<Rightarrow> Inl e
      | Inr T1 \<Rightarrow> (case copy_idat_chunks Img sz idx T1 of Inl e \<Rightarrow> Inl e
                   | Inr T2 \<Rightarrow> Inr (T2 @ drop (length Img - 12) Img))) = Inr Temp"
    unfolding prune_image_def Let_def idx_def P_def t25
    by (simp split: if_splits)
  then obtain T1 where T1: "P = Inr T1"
    by (cases P) auto
  with b obtain T2 where T2: "copy_idat_chunks Img sz idx T1 = Inr T2"
    "Temp = T2 @ drop (length Img - 12) Img"
    by (cases "copy_idat_chunks Img sz idx T1") auto
  from T1 have c: "if Img ! 25 = 3
     then 4 \<le> search_from Img 0 PLTE_SIG
        \<and> search_from Img 0 PLTE_SIG - 4 < idx
        \<and> search_from Img 0 PLTE_SIG - 4
             + (get_u24_be Img (search_from Img 0 PLTE_SIG - 4 + 1) + 12) \<le> length Img
        \<and> T1 = take 33 Img @ slice Img (search_from Img 0 PLTE_SIG - 4)
                  (get_u24_be Img (search_from Img 0 PLTE_SIG - 4 + 1) + 12)
     else T1 = take 33 Img"
    unfolding P_def Let_def by (auto split: if_splits)
  from l a c T2 that show thesis
    unfolding idx_def by blast
qed

lemma prune_image_prefix:
  assumes "prune_image Img sz = Inr Temp"
  shows "33 \<le> length Img" "\<exists>ys. Temp = take 33 Img @ ys @ drop (length Img - 12) Img"
proof -
  from assms obtain T1 T2 where l: "33 \<le> length Img"
    and a: "if Img ! 25 = 3
     then 4 \<le> search_from Img 0 PLTE_SIG
        \<and> search_from Img 0 PLTE_SIG - 4 < search_from Img 0 IDAT_SIG - 4
        \<and> search_from Img 0 PLTE_SIG - 4
             + (get_u24_be Img (search_from Img 0 PLTE_SIG - 4 + 1) + 12) \<le> length Img
        \<and> T1 = take 33 Img @ slice Img (search_from Img 0 PLTE_SIG - 4)
                  (get_u24_be Img (search_from Img 0 PLTE_SIG - 4 + 1) + 12)
     else T1 = take 33 Img"
    and b: "copy_idat_chunks Img sz (search_from Img 0 IDAT_SIG - 4) T1 = Inr T2"
    and c: "Temp = T2 @ drop (length Img - 12) Img"
    by (rule prune_image_Inr)
  show "33 \<le> length Img" by (rule l)
  from a have "\<exists>ys. T1 = take 33 Img @ ys"
    by (auto split: if_splits)
  with copy_idat_chunks_prefix [OF b] c
  show "\<exists>ys. Temp = take 33 Img @ ys @ drop (length Img - 12) Img" by auto
qed

section \<open>The second part of the script composer\<close>

lemma split_script:
  fixes s :: "byte list"
  assumes "16 \<le> length s"
  obtains h l b c where "s = h @ l @ b @ c" "length h = 2" "length l = 2" "length c = 4"
    "h = take 2 s" "b = slice s 4 (length s - 8)" "c = drop (length s - 4) s"
proof
  have "drop (length s - 8) (drop 4 s) = drop (length s - 4) s"
    using assms by simp
  then have a: "take (length s - 8) (drop 4 s) @ drop (length s - 4) s = drop 4 s"
    using append_take_drop_id [of "length s - 8" "drop 4 s"] by simp
  have "drop 2 (drop 2 s) = drop 4 s"
    by simp
  then have b: "take 2 (drop 2 s) @ drop 4 s = drop 2 s"
    using append_take_drop_id [of 2 "drop 2 s"] by simp
  show "s = take 2 s @ slice s 2 2 @ slice s 4 (length s - 8) @ drop (length s - 4) s"
    unfolding slice_def a b by simp
  show "length (take 2 s) = 2" "length (slice s 2 2) = 2" "length (drop (length s - 4) s) = 4"
    using assms by (simp_all add: slice_def)
qed simp_all

lemma byte_of_nat_plus_ten:
  "12 \<le> n \<Longrightarrow> (of_nat ((n + 10 - 12) mod 256) :: byte) = of_nat ((n - 12) mod 256) + 10"
proof -
  assume "12 \<le> n"
  then have e: "n + 10 - 12 = (n - 12) + 10" by simp
  have m: "(of_nat (k mod 256) :: byte) = of_nat k" for k
    by (simp add: word_of_nat_eq_iff take_bit_eq_mod)
  show ?thesis
    unfolding e m by simp
qed

lemma finish_script_Inr:
  fixes h l b c :: "byte list"
  assumes ok: "finish_script pdv = Inr pdv'" and be: "big_endian pdv"
    and sv: "Script_Vec pdv = h @ l @ b @ c"
    and lens: "length h = 2" "length l = 2" "length c = 4" "4 \<le> length b"
  obtains pad where
    "pad = [] \<or> pad = bytes_of ''..........''"
    "Script_Vec pdv' =
       h @ be_bytes16 (length (b @ pad) - 4) @ (b @ pad) @ be_bytes32 (unat (Crc (b @ pad)))"
    "length (Script_Vec pdv') \<le> 750"
    "length (Script_Vec pdv') + length (Image_Vec pdv) + length (Zip_Vec pdv) \<le> MAX_FILE_SIZE"
    "Script_Vec pdv' ! 3 \<notin> set BAD_CHAR"
    "script_size pdv' = length (Script_Vec pdv')"
    "Image_Vec pdv' = Image_Vec pdv" "Zip_Vec pdv' = Zip_Vec pdv"
    "image_size pdv' = image_size pdv" "zip_size pdv' = zip_size pdv" "big_endian pdv'"
proof -
  define dots where "dots = bytes_of ''..........''"
  have ld: "length dots = 10" by (simp add: dots_def bytes_of_def)
  define I Z where "I = length (Image_Vec pdv)" and "Z = length (Zip_Vec pdv)"
  from ok have
    "(be_bytes16 (length b - 4) ! 1 \<in> set BAD_CHAR
       \<and> length b + length dots \<le> 742
       \<and> 8 + (length b + length dots) + I + Z \<le> MAX_FILE_SIZE
       \<and> pdv' = pdv\<lparr>script_size := 8 + (length b + length dots),
            combined_file_size := 8 + (length b + length dots) + I + Z,
            Script_Vec := h @ be_bytes16 (length b + length dots - 4) @ b @ dots
               @ be_bytes32 (unat (Crc (b @ dots)))\<rparr>)
     \<or> (be_bytes16 (length b - 4) ! 1 \<notin> set BAD_CHAR
       \<and> length b \<le> 742
       \<and> 8 + length b + I + Z \<le> MAX_FILE_SIZE
       \<and> pdv' = pdv\<lparr>script_size := 8 + length b,
            combined_file_size := 8 + length b + I + Z,
            Script_Vec := h @ be_bytes16 (length b - 4) @ b @ be_bytes32 (unat (Crc b))\<rparr>)"
    unfolding dots_def I_def Z_def
    by (simp add: finish_script_def Let_def be sv lens Value_Updater_BE16_append
        Value_Updater_BE32_append slice_def insert_at_def nth_append split: if_splits)
  then show thesis
  proof (elim disjE conjE)
    assume bad: "be_bytes16 (length b - 4) ! 1 \<in> set BAD_CHAR"
      and chk: "length b + length dots \<le> 742" "8 + (length b + length dots) + I + Z \<le> MAX_FILE_SIZE"
      and res: "pdv' = pdv\<lparr>script_size := 8 + (length b + length dots),
            combined_file_size := 8 + (length b + length dots) + I + Z,
            Script_Vec := h @ be_bytes16 (length b + length dots - 4) @ b @ dots
               @ be_bytes32 (unat (Crc (b @ dots)))\<rparr>"
    have "Script_Vec pdv' ! 3 = (of_nat ((length b + 8 + 10 - 12) mod 256) :: byte)"
      using lens ld by (simp add: res nth_append be_bytes16_def)
    also have "\<dots> = of_nat ((length b + 8 - 12) mod 256) + 10"
      using lens by (intro byte_of_nat_plus_ten) simp
    also have "of_nat ((length b + 8 - 12) mod 256) = be_bytes16 (length b - 4) ! 1"
      by (simp add: be_bytes16_def)
    finally have 3: "Script_Vec pdv' ! 3 \<notin> set BAD_CHAR"
      using bad_char_plus_ten [OF bad] by simp
    show thesis
    proof (rule that [of dots])
      show "dots = [] \<or> dots = bytes_of ''..........''" by (simp add: dots_def)
      show "Script_Vec pdv' ! 3 \<notin> set BAD_CHAR" by (rule 3)
    qed (use chk be lens ld in \<open>simp_all add: res I_def Z_def\<close>)
  next
    assume good: "be_bytes16 (length b - 4) ! 1 \<notin> set BAD_CHAR"
      and chk: "length b \<le> 742" "8 + length b + I + Z \<le> MAX_FILE_SIZE"
      and res: "pdv' = pdv\<lparr>script_size := 8 + length b,
            combined_file_size := 8 + length b + I + Z,
            Script_Vec := h @ be_bytes16 (length b - 4) @ b @ be_bytes32 (unat (Crc b))\<rparr>"
    have 3: "Script_Vec pdv' ! 3 = be_bytes16 (length b - 4) ! 1"
      using lens by (simp add: res nth_append)
    show thesis
    proof (rule that [of "[]"])
      show "Script_Vec pdv' ! 3 \<notin> set BAD_CHAR" using 3 good by simp
    qed (use chk be lens in \<open>simp_all add: res I_def Z_def\<close>)
  qed
qed

section \<open>The fixer changes nothing before the last IDAT chunk\<close>

lemma Fix_Zip_Offset_trace_frame:
  assumes "Fix_Zip_Offset_trace vec idx = Inr (vec', written)"
  shows "length vec' = length vec" and "j < idx \<Longrightarrow> vec' ! j = vec ! j"
proof -
  define S where "S = START_CENTRAL_DIR_INDEX vec idx"
  define E where "E = END_CENTRAL_DIR_INDEX vec idx"
  from assms obtain vec1 vec2 where
    f: "fix_records vec (zip_records_of vec idx) idx (if S = 0 then 2 ^ 64 - 1 else S - 1) []
          = Inr (vec1, written)"
    and s: "Value_Updater vec1 (E + 19) S 32 False = Inr vec2"
    and c: "Value_Updater vec2 (E + 21) (16 + get_u16 (vec2 ! (E + 21)) (vec2 ! (E + 20))) 16 False
              = Inr vec'"
    unfolding S_def E_def by (rule Fix_Zip_Offset_trace_Inr)
  have SE: "idx \<le> S" "S \<le> E"
    unfolding S_def E_def START_CENTRAL_DIR_INDEX_def END_CENTRAL_DIR_INDEX_def
    by (rule search_from_ge)+
  from fix_records_trace [OF f] have len1: "length vec1 = length vec"
    and w: "\<forall>c \<in> set (map fst written). (if S = 0 then 2 ^ 64 - 1 else S - 1) + 45 \<le> c"
    and fr: "\<And>j. (\<forall>c \<in> set (map fst written). j < c - 3 \<or> c < j) \<Longrightarrow> vec1 ! j = vec ! j"
    by auto
  have len2: "length vec2 = length vec1"
    by (rule Value_Updater_LE32_frame(1) [OF s]) simp
  have len3: "length vec' = length vec2"
    using Value_Updater_LE16_Inr [OF c] by simp
  show "length vec' = length vec"
    using len1 len2 len3 by simp
  assume j: "j < idx"
  have "\<forall>c \<in> set (map fst written). j < c - 3"
  proof
    fix c assume "c \<in> set (map fst written)"
    with w have "(if S = 0 then 2 ^ 64 - 1 else S - 1) + 45 \<le> c" by blast
    with j SE show "j < c - 3" by (auto split: if_splits)
  qed
  then have 1: "vec1 ! j = vec ! j" by (blast intro: fr)
  have 2: "vec2 ! j = vec1 ! j"
    using j SE by (intro Value_Updater_LE32_frame(2) [OF s]) simp_all
  have 3: "vec' ! j = vec2 ! j"
    using Value_Updater_LE16_Inr [OF c] j SE by simp
  from 1 2 3 show "vec' ! j = vec ! j" by simp
qed

section \<open>The assembler\<close>

lemma Combine_Vectors_Inr:
  fixes hdr mid iend :: "byte list"
  assumes ok: "Combine_Vectors pdv = Inr out"
    and iv: "Image_Vec pdv = hdr @ mid @ iend" "length hdr = 33" "length iend = 12"
    and sz: "image_size pdv = length (Image_Vec pdv)" "script_size pdv = length (Script_Vec pdv)"
       "zip_size pdv = length (Zip_Vec pdv)"
    and ls: "8 \<le> length (Script_Vec pdv)" "12 \<le> length (Zip_Vec pdv)"
  obtains vec3 written where
    "Fix_Zip_Offset_trace (hdr @ Script_Vec pdv @ mid @ Zip_Vec pdv @ iend)
       (37 + (length mid + length (Script_Vec pdv))) = Inr (vec3, written)"
    "length vec3 = length hdr + length (Script_Vec pdv) + length mid + length (Zip_Vec pdv)
       + length iend"
    "out = take (length vec3 - 16) vec3
         @ be_bytes32 (unat (Crc (slice vec3 (37 + (length mid + length (Script_Vec pdv)))
                                   (length (Zip_Vec pdv) - 8))))
         @ drop (length vec3 - 12) vec3"
proof -
  from ok obtain vec3 written vec4 where
    f: "Fix_Zip_Offset_trace (hdr @ Script_Vec pdv @ mid @ Zip_Vec pdv @ iend)
       (37 + (length mid + length (Script_Vec pdv))) = Inr (vec3, written)"
    and v: "Value_Updater vec3 (length vec3 - 16)
          (unat (Crc (slice vec3 (37 + (length mid + length (Script_Vec pdv)))
                       (length (Zip_Vec pdv) - 8)))) 32 True = Inr vec4"
    and o: "take (length vec3) vec4 = out"
    by (auto simp: Combine_Vectors_def Let_def iv sz insert_at_def Fix_Zip_Offset_def
        Write_Out_Polyglot_File_def split: sum.splits prod.splits if_splits)
  have len: "length vec3 = length hdr + length (Script_Vec pdv) + length mid
      + length (Zip_Vec pdv) + length iend"
    using Fix_Zip_Offset_trace_frame(1) [OF f] by simp
  from Value_Updater_BE32_Inr [OF v] len iv ls o
  have "out = take (length vec3 - 16) vec3
         @ be_bytes32 (unat (Crc (slice vec3 (37 + (length mid + length (Script_Vec pdv)))
                                   (length (Zip_Vec pdv) - 8))))
         @ drop (length vec3 - 12) vec3"
    by auto
  with f len that show thesis by blast
qed

section \<open>The length of the composed script\<close>

lemma insert_strings_length:
  "insert_strings Script AV SV lim i a = Inr s \<Longrightarrow> length Script \<le> length s"
proof (induction Script AV SV lim i a rule: insert_strings.induct)
  case (1 Script AV SV lim i a)
  show ?case
  proof (cases "lim > i")
    case False
    with "1.prems" show ?thesis by (simp add: insert_strings.simps [of Script])
  next
    case True
    with "1.prems" have g: "\<not> (length SV \<le> i \<or> length SV \<le> a \<or> length AV \<le> SV ! a
        \<or> length Script < SV ! i)"
      by (auto simp: insert_strings.simps [of Script] split: if_splits)
    with "1.prems" True have
      "insert_strings (insert_at Script (SV ! i) (AV ! (SV ! a))) AV SV lim (i + 1) (a + 1) = Inr s"
      by (simp add: insert_strings.simps [of Script])
    from "1.IH" [OF True g this] g show ?thesis by simp
  qed
qed

lemma compose_script_length:
  assumes "compose_script Zip al aw = Inr s"
  shows "274 \<le> length s"
proof -
  from assms obtain AV SV lim i a where
    "insert_strings Script_Template AV SV lim i a = Inr s"
    by (auto simp: compose_script_def Let_def split: if_splits sum.splits prod.splits)
  from insert_strings_length [OF this] show ?thesis
    by (simp add: length_Script_Template)
qed

section \<open>The shape of the output\<close>

text \<open>
  A successful build: the pruned image is \<open>hdr @ mid @ iend\<close>, the script chunk is \<open>S\<close>,
  the framed archive is \<open>Z\<close>, and the output is the fixed combined buffer with the CRC of
  the last IDAT chunk written.
\<close>

lemma build_shape:
  assumes "build img zipf al aw = Inr out"
  obtains mid S vec3 written where
    "check_image img = Inr ()"
    "33 \<le> length img"
    "prune_image img (length img) = Inr (take 33 img @ mid @ drop (length img - 12) img)"
    "8 \<le> length S" "length S \<le> 750" "S ! 3 \<notin> set BAD_CHAR"
    "length S + (45 + length mid) + (length zipf + 12) \<le> MAX_FILE_SIZE"
    "Fix_Zip_Offset_trace
       (take 33 img @ S @ mid @ (be_bytes32 (length zipf) @ IDAT_SIG @ zipf @ [0, 0, 0, 0])
          @ drop (length img - 12) img)
       (37 + (length mid + length S)) = Inr (vec3, written)"
    "length vec3 = 33 + length S + length mid + (length zipf + 12) + 12"
    "out = take (length vec3 - 16) vec3
         @ be_bytes32 (unat (Crc (slice vec3 (37 + (length mid + length S)) (length zipf + 4))))
         @ drop (length vec3 - 12) vec3"
proof -
  from assms obtain Temp zv s0 pdv' where
    c: "check_image img = Inr ()"
    and p: "prune_image img (length img) = Inr Temp"
    and z: "frame_zip zipf True = Inr zv"
    and s: "compose_script zv al aw = Inr s0"
    and f: "finish_script \<lparr>Image_Vec = Temp, Zip_Vec = zv, Script_Vec = s0, image_name = [],
        zip_name = [], image_size = length Temp, zip_size = length zv, script_size = 0,
        combined_file_size = length img + length zipf, big_endian = True\<rparr> = Inr pdv'"
    and cv: "Combine_Vectors pdv' = Inr out"
    by (rule build_Inr)
  from prune_image_prefix [OF p] obtain mid where
    l: "33 \<le> length img" and T: "Temp = take 33 img @ mid @ drop (length img - 12) img"
    by blast
  have zv: "zv = be_bytes32 (length zipf) @ IDAT_SIG @ zipf @ [0, 0, 0, 0]"
    using z by (simp add: frame_zip_eq)
  have lz: "length zv = length zipf + 12"
    by (simp add: zv IDAT_SIG_def bytes_of_def)
  from compose_script_length [OF s] have "16 \<le> length s0" by simp
  then obtain h l2 b c4 where s0: "s0 = h @ l2 @ b @ c4"
    and lens: "length h = 2" "length l2 = 2" "length c4 = 4"
    by (rule split_script)
  from compose_script_length [OF s] s0 lens have lb: "4 \<le> length b" by simp
  define pdv where "pdv = \<lparr>Image_Vec = Temp, Zip_Vec = zv, Script_Vec = s0, image_name = [],
        zip_name = [], image_size = length Temp, zip_size = length zv, script_size = 0,
        combined_file_size = length img + length zipf, big_endian = True\<rparr>"
  have f': "finish_script pdv = Inr pdv'" using f by (simp add: pdv_def)
  have pd: "big_endian pdv" "Script_Vec pdv = h @ l2 @ b @ c4"
    by (simp_all add: pdv_def s0)
  from finish_script_Inr [OF f' pd lens lb] obtain pad where
    S: "Script_Vec pdv' =
       h @ be_bytes16 (length (b @ pad) - 4) @ (b @ pad) @ be_bytes32 (unat (Crc (b @ pad)))"
    and S750: "length (Script_Vec pdv') \<le> 750"
    and Smax: "length (Script_Vec pdv') + length (Image_Vec pdv) + length (Zip_Vec pdv) \<le> MAX_FILE_SIZE"
    and S3: "Script_Vec pdv' ! 3 \<notin> set BAD_CHAR"
    and flds: "script_size pdv' = length (Script_Vec pdv')"
      "Image_Vec pdv' = Image_Vec pdv" "Zip_Vec pdv' = Zip_Vec pdv"
      "image_size pdv' = image_size pdv" "zip_size pdv' = zip_size pdv"
    by blast
  have S8: "8 \<le> length (Script_Vec pdv')"
    using lens by (simp add: S)
  have iv: "Image_Vec pdv' = take 33 img @ mid @ drop (length img - 12) img"
    "length (take 33 img) = 33" "length (drop (length img - 12) img) = 12"
    using l by (simp_all add: flds pdv_def T)
  have sz: "image_size pdv' = length (Image_Vec pdv')" "zip_size pdv' = length (Zip_Vec pdv')"
    by (simp_all add: flds pdv_def)
  have z12: "12 \<le> length (Zip_Vec pdv')"
    by (simp add: flds pdv_def lz)
  from Combine_Vectors_Inr [OF cv iv sz(1) flds(1) sz(2) S8 z12]
  obtain vec3 written where
    "Fix_Zip_Offset_trace (take 33 img @ Script_Vec pdv' @ mid @ Zip_Vec pdv'
         @ drop (length img - 12) img)
       (37 + (length mid + length (Script_Vec pdv'))) = Inr (vec3, written)"
    "length vec3 = length (take 33 img) + length (Script_Vec pdv') + length mid
       + length (Zip_Vec pdv') + length (drop (length img - 12) img)"
    "out = take (length vec3 - 16) vec3
         @ be_bytes32 (unat (Crc (slice vec3 (37 + (length mid + length (Script_Vec pdv')))
                                   (length (Zip_Vec pdv') - 8))))
         @ drop (length vec3 - 12) vec3"
    by blast
  then have
    "Fix_Zip_Offset_trace
       (take 33 img @ Script_Vec pdv' @ mid
          @ (be_bytes32 (length zipf) @ IDAT_SIG @ zipf @ [0, 0, 0, 0])
          @ drop (length img - 12) img)
       (37 + (length mid + length (Script_Vec pdv'))) = Inr (vec3, written)"
    "length vec3 = 33 + length (Script_Vec pdv') + length mid + (length zipf + 12) + 12"
    "out = take (length vec3 - 16) vec3
         @ be_bytes32 (unat (Crc (slice vec3 (37 + (length mid + length (Script_Vec pdv')))
                                   (length zipf + 4))))
         @ drop (length vec3 - 12) vec3"
    using l by (simp_all add: flds pdv_def zv [symmetric] lz add.commute)
  moreover have "length (Script_Vec pdv') + (45 + length mid) + (length zipf + 12) \<le> MAX_FILE_SIZE"
    using Smax l by (simp add: pdv_def T lz)
  ultimately show thesis
    using c l p T S8 S750 S3 by (intro that [of mid "Script_Vec pdv'" vec3 written]) simp_all
qed

lemma build_prefix:
  assumes "build img zipf al aw = Inr out"
  obtains S where "45 \<le> length S + 37" "S ! 3 \<notin> set BAD_CHAR" "\<forall>j<33. out ! j = img ! j"
    "out ! 36 = S ! 3" "33 \<le> length img" "check_image img = Inr ()"
proof -
  from assms obtain mid S vec3 written where
    c: "check_image img = Inr ()"
    and l: "33 \<le> length img"
    and S: "8 \<le> length S" "S ! 3 \<notin> set BAD_CHAR"
    and f: "Fix_Zip_Offset_trace
       (take 33 img @ S @ mid @ (be_bytes32 (length zipf) @ IDAT_SIG @ zipf @ [0, 0, 0, 0])
          @ drop (length img - 12) img)
       (37 + (length mid + length S)) = Inr (vec3, written)"
    and len: "length vec3 = 33 + length S + length mid + (length zipf + 12) + 12"
    and out: "out = take (length vec3 - 16) vec3
         @ be_bytes32 (unat (Crc (slice vec3 (37 + (length mid + length S)) (length zipf + 4))))
         @ drop (length vec3 - 12) vec3"
    by (rule build_shape)
  have o: "out ! j = vec3 ! j" if "j < 37" for j
    using that len S(1) by (simp add: out nth_append)
  have v: "vec3 ! j = (take 33 img @ S @ mid
        @ (be_bytes32 (length zipf) @ IDAT_SIG @ zipf @ [0, 0, 0, 0])
        @ drop (length img - 12) img) ! j" if "j < 37" for j
    using that S(1) by (intro Fix_Zip_Offset_trace_frame(2) [OF f]) simp
  have 1: "out ! j = img ! j" if "j < 33" for j
    using that l o [of j] v [of j] by (simp add: nth_append)
  have 2: "out ! 36 = S ! 3"
    using l S(1) o [of 36] v [of 36] by (simp add: nth_append)
  from S 1 2 l c that show thesis by simp
qed

text \<open>
  C5. In the output of every successful build the bytes at indices 19 to 32, which are
  those of the input image, and the byte at offset 3 of the iCCP chunk's length field
  (index 36) are none of the forbidden bytes. The second part of the script composer
  ensures the latter: whenever it succeeds on a script of at least 16 bytes, the byte at
  position 3 of the script is not forbidden, the ten dots having moved a forbidden low
  length byte on by ten.
\<close>

theorem forbidden_byte_freedom:
  "(build img zipf args_linux args_windows = Inr out \<longrightarrow>
      (\<forall>i \<in> {19..32}. out ! i \<notin> set BAD_CHAR) \<and> out ! (33 + 3) \<notin> set BAD_CHAR
      \<and> take 33 out = take 33 img)
   \<and> (finish_script pdv = Inr pdv' \<and> big_endian pdv \<and> 16 \<le> length (Script_Vec pdv) \<longrightarrow>
        Script_Vec pdv' ! 3 \<notin> set BAD_CHAR)"
proof (intro conjI impI)
  assume b: "build img zipf args_linux args_windows = Inr out"
  from b obtain S where lo: "45 \<le> length S + 37"
    and S3: "S ! 3 \<notin> set BAD_CHAR"
    and pre': "\<forall>j<33. out ! j = img ! j"
    and S36: "out ! 36 = S ! 3"
    and l: "33 \<le> length img" and c: "check_image img = Inr ()"
    by (rule build_prefix)
  note S = S3 S36
  from pre' have pre: "\<And>j. j < 33 \<Longrightarrow> out ! j = img ! j" by blast
  show "\<forall>i \<in> {19..32}. out ! i \<notin> set BAD_CHAR"
  proof
    fix i :: nat assume "i \<in> {19..32}"
    then have i: "19 \<le> i" "i \<le> 32" by simp_all
    from check_image_no_bad_char [OF c i] pre [of i] i show "out ! i \<notin> set BAD_CHAR"
      by simp
  qed
  show "out ! (33 + 3) \<notin> set BAD_CHAR"
    using S by simp
  from b obtain mid S' vec3 written where
    "Fix_Zip_Offset_trace
       (take 33 img @ S' @ mid @ (be_bytes32 (length zipf) @ IDAT_SIG @ zipf @ [0, 0, 0, 0])
          @ drop (length img - 12) img)
       (37 + (length mid + length S')) = Inr (vec3, written)"
    and len: "length vec3 = 33 + length S' + length mid + (length zipf + 12) + 12"
    and out: "out = take (length vec3 - 16) vec3
         @ be_bytes32 (unat (Crc (slice vec3 (37 + (length mid + length S')) (length zipf + 4))))
         @ drop (length vec3 - 12) vec3"
    by (rule build_shape)
  have "length out = length vec3"
    using len by (simp add: out)
  with len have "33 \<le> length out" by simp
  with l pre show "take 33 out = take 33 img"
    by (auto simp: list_eq_iff_nth_eq)
next
  assume a: "finish_script pdv = Inr pdv' \<and> big_endian pdv \<and> 16 \<le> length (Script_Vec pdv)"
  then obtain h l2 b c4 where s0: "Script_Vec pdv = h @ l2 @ b @ c4"
    and lens: "length h = 2" "length l2 = 2" "length c4 = 4"
    by (metis split_script)
  with a have lb: "4 \<le> length b" by simp
  from a have f: "finish_script pdv = Inr pdv'" and be: "big_endian pdv" by simp_all
  from finish_script_Inr [OF f be s0 lens lb] show "Script_Vec pdv' ! 3 \<notin> set BAD_CHAR"
    by blast
qed

section \<open>Running the stages forwards\<close>

lemma finish_script_plain:
  fixes h l b c :: "byte list"
  assumes "big_endian pdv" "Script_Vec pdv = h @ l @ b @ c"
    "length h = 2" "length l = 2" "length c = 4"
    "be_bytes16 (length b - 4) ! 1 \<notin> set BAD_CHAR"
    "length b \<le> 742"
    "8 + length b + length (Image_Vec pdv) + length (Zip_Vec pdv) \<le> MAX_FILE_SIZE"
  shows "finish_script pdv =
     Inr (pdv\<lparr>script_size := 8 + length b,
           combined_file_size := 8 + length b + length (Image_Vec pdv) + length (Zip_Vec pdv),
           Script_Vec := h @ be_bytes16 (length b - 4) @ b @ be_bytes32 (unat (Crc b))\<rparr>)"
  using assms
  by (simp add: finish_script_def Let_def Value_Updater_BE16_append Value_Updater_BE32_append
      slice_def insert_at_def nth_append)

lemma finish_script_padded:
  fixes h l b c :: "byte list"
  assumes "big_endian pdv" "Script_Vec pdv = h @ l @ b @ c"
    "length h = 2" "length l = 2" "length c = 4"
    "be_bytes16 (length b - 4) ! 1 \<in> set BAD_CHAR"
    "length b + 10 \<le> 742"
    "8 + (length b + 10) + length (Image_Vec pdv) + length (Zip_Vec pdv) \<le> MAX_FILE_SIZE"
  shows "finish_script pdv =
     Inr (pdv\<lparr>script_size := 8 + (length b + 10),
           combined_file_size := 8 + (length b + 10) + length (Image_Vec pdv) + length (Zip_Vec pdv),
           Script_Vec := h @ be_bytes16 (length b + 10 - 4) @ b @ bytes_of ''..........''
              @ be_bytes32 (unat (Crc (b @ bytes_of ''..........'')))\<rparr>)"
proof -
  have "length (bytes_of ''..........'') = 10"
    by (simp add: bytes_of_def)
  with assms show ?thesis
    by (simp add: finish_script_def Let_def Value_Updater_BE16_append Value_Updater_BE32_append
        slice_def insert_at_def nth_append)
qed

lemma Combine_Vectors_run:
  fixes hdr mid iend L B B' C :: "byte list"
  assumes iv: "Image_Vec pdv = hdr @ mid @ iend" "length hdr = 33" "length iend = 12"
    and zv: "Zip_Vec pdv = L @ B @ C" "length L = 4" "length C = 4"
    and sz: "image_size pdv = length (Image_Vec pdv)" "script_size pdv = length (Script_Vec pdv)"
       "zip_size pdv = length (Zip_Vec pdv)"
    and ls: "8 \<le> length (Script_Vec pdv)"
    and f: "\<And>P. length P = 37 + (length mid + length (Script_Vec pdv)) \<Longrightarrow>
       Fix_Zip_Offset_trace (P @ B @ C @ iend) (37 + (length mid + length (Script_Vec pdv)))
         = Inr (P @ B' @ C @ iend, written)"
  shows "Combine_Vectors pdv =
     Inr (hdr @ Script_Vec pdv @ mid @ L @ B' @ be_bytes32 (unat (Crc B')) @ iend)"
proof -
  have lp: "length (hdr @ Script_Vec pdv @ mid @ L) = 37 + (length mid + length (Script_Vec pdv))"
    using iv zv by simp
  from f [OF lp]
  have f': "Fix_Zip_Offset_trace (hdr @ Script_Vec pdv @ mid @ L @ B @ C @ iend)
        (37 + (length mid + length (Script_Vec pdv)))
      = Inr (hdr @ Script_Vec pdv @ mid @ L @ B' @ C @ iend, written)"
    by simp
  from Fix_Zip_Offset_trace_frame(1) [OF f'] have lb: "length B' = length B"
    by simp
  show ?thesis
    using iv zv ls lb
    by (simp add: Combine_Vectors_def Let_def sz insert_at_def Fix_Zip_Offset_def
        Write_Out_Polyglot_File_def f' Value_Updater_BE32_append slice_def)
qed

section \<open>Evaluating the CRC\<close>

lemmas Crc_Row_defs =
  Crc_Row_0_def Crc_Row_1_def Crc_Row_2_def Crc_Row_3_def Crc_Row_4_def Crc_Row_5_def
  Crc_Row_6_def Crc_Row_7_def Crc_Row_8_def Crc_Row_9_def Crc_Row_10_def Crc_Row_11_def
  Crc_Row_12_def Crc_Row_13_def Crc_Row_14_def Crc_Row_15_def

lemma Crc_Table_rows: "Crc_Table = concat Crc_Rows"
  by (simp add: Crc_Table_def Crc_Rows_def Crc_Row_defs)

lemma nth_concat_uniform:
  assumes "\<forall>r \<in> set rows. length r = m" "i < length rows" "j < m"
  shows "concat rows ! (i * m + j) = rows ! i ! j"
  using assms
proof (induction rows arbitrary: i)
  case Nil
  then show ?case by simp
next
  case (Cons r rows)
  show ?case
  proof (cases i)
    case 0
    with Cons.prems show ?thesis by (simp add: nth_append)
  next
    case (Suc k)
    with Cons.prems Cons.IH [of k] show ?thesis
      by (simp add: nth_append)
  qed
qed

lemma Crc_Table_nth: "n < 256 \<Longrightarrow> Crc_Table ! n = Crc_Rows ! (n div 16) ! (n mod 16)"
proof -
  assume n: "n < 256"
  have "concat Crc_Rows ! ((n div 16) * 16 + n mod 16) = Crc_Rows ! (n div 16) ! (n mod 16)"
    by (rule nth_concat_uniform) (use n in \<open>auto simp: Crc_Rows_def Crc_Row_defs\<close>)
  then show ?thesis by (simp add: Crc_Table_rows)
qed

lemmas crc_eval = Crc_def Crc_Update_def Crc_Table_nth Crc_Rows_def Crc_Row_defs

section \<open>The example build\<close>

lemma lengths_ex:
  "length png_ex = 100" "length zip_ex = 196" "length mid_ex = 40"
  "length script_body_ex = 308" "length zip_body_fixed_ex = 200"
  by (simp_all add: png_ex_def zip_ex_def mid_ex_def script_body_ex_def zip_body_fixed_ex_def)

lemma check_image_png_ex: "check_image png_ex = Inr ()"
  by (simp add: check_image_def png_ex_def check_image_eval Let_def VALID_COLOR_TYPE_def
      VALID_IMAGE_DIMS_def PNG_COLOR_TYPE_def IMAGE_WIDTH_DIMS_def IMAGE_HEIGHT_DIMS_def
      get_u16_def)

lemma prune_image_png_ex:
  "prune_image png_ex 100 = Inr (take 33 png_ex @ mid_ex @ drop 88 png_ex)"
  by (simp add: prune_image_def png_ex_def mid_ex_def Let_def search_from_def IDAT_SIG_def
      bytes_of_def get_u32_be_def slice_def copy_idat_chunks.simps crc_eval)

lemma frame_zip_ex:
  "frame_zip zip_ex True = Inr ([0, 0, 0, 196] @ IDAT_SIG @ zip_ex @ [0, 0, 0, 0])"
  by (simp add: frame_zip_eq lengths_ex be_bytes32_def)

lemma zip_checks_ex:
  "34 < length ([0, 0, 0, 196] @ IDAT_SIG @ zip_ex @ [0, 0, 0, 0])"
  "slice ([0, 0, 0, 196] @ IDAT_SIG @ zip_ex @ [0, 0, 0, 0]) 8 4 = ZIP_SIG"
  "4 \<le> unat (([0, 0, 0, 196] @ IDAT_SIG @ zip_ex @ [0, 0, 0, 0]) ! 34)"
  by (simp_all add: IDAT_SIG_def bytes_of_def zip_ex_def slice_def ZIP_SIG_def)

lemma compose_script_ex:
  "compose_script ([0, 0, 0, 196] @ IDAT_SIG @ zip_ex @ [0, 0, 0, 0]) [] []
     = Inr ([0, 0] @ [0, 0xFD] @ script_body_ex @ [0, 0, 0, 0])"
  by (simp add: IDAT_SIG_def zip_ex_def script_body_ex_def compose_eval)

lemma fix_ex:
  "length P = 393 \<Longrightarrow>
   Fix_Zip_Offset_trace (P @ (IDAT_SIG @ zip_ex) @ [0, 0, 0, 0] @ drop 88 png_ex) 393
     = Inr (P @ zip_body_fixed_ex @ [0, 0, 0, 0] @ drop 88 png_ex, [(514, 397), (565, 434)])"
  by (simp add: IDAT_SIG_def bytes_of_def zip_ex_def zip_body_fixed_ex_def png_ex_def fix_eval
      nth_append list_update_append)

lemma build_ex: "build png_ex zip_ex [] [] = Inr out_ex"
proof -
  let ?hdr = "take 33 png_ex" and ?iend = "drop 88 png_ex"
  let ?zv = "[0, 0, 0, 196] @ IDAT_SIG @ zip_ex @ [0, 0, 0, 0]"
  let ?s0 = "[0, 0] @ [0, 0xFD] @ script_body_ex @ [0, 0, 0, 0]"
  let ?pdv = "\<lparr>Image_Vec = ?hdr @ mid_ex @ ?iend, Zip_Vec = ?zv, Script_Vec = ?s0,
        image_name = [], zip_name = [], image_size = length (?hdr @ mid_ex @ ?iend),
        zip_size = length ?zv, script_size = 0,
        combined_file_size = length png_ex + length zip_ex, big_endian = True\<rparr>"
  let ?S = "[0, 0] @ be_bytes16 (length script_body_ex - 4) @ script_body_ex
              @ be_bytes32 (unat (Crc script_body_ex))"
  let ?pdv' = "?pdv\<lparr>script_size := 8 + length script_body_ex,
        combined_file_size := 8 + length script_body_ex + length (Image_Vec ?pdv)
           + length (Zip_Vec ?pdv),
        Script_Vec := ?S\<rparr>"
  have li: "length (IDAT_SIG) = 4"
    by (simp add: IDAT_SIG_def bytes_of_def)
  have 1: "file_size_check (length png_ex) (length zip_ex) = None"
    by (simp add: lengths_ex file_size_check_None_iff)
  have 3: "prune_image png_ex (length png_ex) = Inr (?hdr @ mid_ex @ ?iend)"
    by (simp add: lengths_ex prune_image_png_ex)
  have 6: "finish_script ?pdv = Inr ?pdv'"
    by (rule finish_script_plain [where l = "[0, 0xFD]" and c = "[0, 0, 0, 0]"])
      (simp_all add: lengths_ex li be_bytes16_def BAD_CHAR_def MAX_FILE_SIZE_def)
  have f: "Fix_Zip_Offset_trace (P @ (IDAT_SIG @ zip_ex) @ [0, 0, 0, 0] @ ?iend)
          (37 + (length mid_ex + length (Script_Vec ?pdv')))
        = Inr (P @ zip_body_fixed_ex @ [0, 0, 0, 0] @ ?iend, [(514, 397), (565, 434)])"
    if "length P = 37 + (length mid_ex + length (Script_Vec ?pdv'))" for P
    using that fix_ex [of P] by (simp add: lengths_ex)
  have "Combine_Vectors ?pdv' =
     Inr (?hdr @ Script_Vec ?pdv' @ mid_ex @ [0, 0, 0, 196] @ zip_body_fixed_ex
           @ be_bytes32 (unat (Crc zip_body_fixed_ex)) @ ?iend)"
    by (rule Combine_Vectors_run [where B = "IDAT_SIG @ zip_ex" and C = "[0, 0, 0, 0]", OF _ _ _ _ _ _ _ _ _ _ f])
      (simp_all add: lengths_ex)
  also have "?hdr @ Script_Vec ?pdv' @ mid_ex @ [0, 0, 0, 196] @ zip_body_fixed_ex
           @ be_bytes32 (unat (Crc zip_body_fixed_ex)) @ ?iend = out_ex"
    by (simp add: out_ex_def lengths_ex) (simp add: be_bytes32_def)
  finally have 7: "Combine_Vectors ?pdv' = Inr out_ex" .
  show ?thesis
    by (rule build_stages [OF 1 check_image_png_ex 3 frame_zip_ex zip_checks_ex compose_script_ex])
      (use 6 7 in \<open>simp_all add: lengths_ex li\<close>)
qed

text \<open>
  A run of the theorem on the example build, and on a script whose length byte is the
  forbidden \<open>0x22\<close> before the padding.
\<close>

theorem forbidden_byte_freedom_witness:
  "out_ex ! 19 \<notin> set BAD_CHAR \<and> out_ex ! 32 \<notin> set BAD_CHAR
   \<and> out_ex ! (33 + 3) \<notin> set BAD_CHAR \<and> take 33 out_ex = take 33 png_ex
   \<and> ([0, 0] @ be_bytes16 (38 + 10 - 4) @ replicate 38 0x41 @ bytes_of ''..........''
        @ be_bytes32 (unat (Crc (replicate 38 0x41 @ bytes_of ''..........'')))) ! 3
       \<notin> set BAD_CHAR"
proof -
  let ?pdv = "pdv0\<lparr>Script_Vec := [0, 0] @ [0, 0] @ replicate 38 0x41 @ [0, 0, 0, 0]\<rparr>"
  let ?pdv' = "?pdv\<lparr>script_size := 8 + (length (replicate 38 (0x41 :: byte)) + 10),
    combined_file_size := 8 + (length (replicate 38 (0x41 :: byte)) + 10)
       + length (Image_Vec ?pdv) + length (Zip_Vec ?pdv),
    Script_Vec := [0, 0] @ be_bytes16 (length (replicate 38 (0x41 :: byte)) + 10 - 4)
       @ replicate 38 0x41 @ bytes_of ''..........''
       @ be_bytes32 (unat (Crc (replicate 38 0x41 @ bytes_of ''..........'')))\<rparr>"
  have f: "finish_script ?pdv = Inr ?pdv'"
    by (rule finish_script_padded [where l = "[0, 0]" and c = "[0, 0, 0, 0]"])
      (simp_all add: pdv0_def be_bytes16_def BAD_CHAR_def MAX_FILE_SIZE_def)
  have h: "finish_script ?pdv = Inr ?pdv' \<and> big_endian ?pdv \<and> 16 \<le> length (Script_Vec ?pdv)"
    using f by (simp add: pdv0_def)
  from forbidden_byte_freedom [of png_ex zip_ex "[]" "[]" out_ex ?pdv ?pdv'] build_ex h
  have a: "(\<forall>i \<in> {19..32}. out_ex ! i \<notin> set BAD_CHAR) \<and> out_ex ! (33 + 3) \<notin> set BAD_CHAR
      \<and> take 33 out_ex = take 33 png_ex \<and> Script_Vec ?pdv' ! 3 \<notin> set BAD_CHAR"
    by simp
  from a have "out_ex ! 19 \<notin> set BAD_CHAR" "out_ex ! 32 \<notin> set BAD_CHAR"
    by (simp_all del: Ball_def)
  with a show ?thesis by simp
qed

section \<open>More facts about the linear search\<close>

lemma window_eq_iff:
  "p + n \<le> length xs \<Longrightarrow>
   take n (drop p xs) = ys \<longleftrightarrow> length ys = n \<and> (\<forall>i<n. xs ! (p + i) = ys ! i)"
  by (auto simp: list_eq_iff_nth_eq)

lemma window_hit_length:
  assumes "take (length pat) (drop p xs) = pat" "p \<le> length xs"
  shows "p + length pat \<le> length xs"
proof -
  have "length (take (length pat) (drop p xs)) = length pat"
    using assms(1) by simp
  with assms(2) show ?thesis by (simp add: min_def split: if_splits)
qed

lemma slice_cong:
  assumes "i + n \<le> length xs" "length ys = length xs"
    and "\<And>j. i \<le> j \<Longrightarrow> j < i + n \<Longrightarrow> ys ! j = xs ! j"
  shows "slice ys i n = slice xs i n"
  using assms by (auto simp: slice_def list_eq_iff_nth_eq)

lemma search_from_eqI:
  assumes "first \<le> p" "p < length vec" "take (length pat) (drop p vec) = pat"
    and "\<And>q. first \<le> q \<Longrightarrow> q < p \<Longrightarrow> take (length pat) (drop q vec) \<noteq> pat"
  shows "search_from vec first pat = p"
proof -
  have le: "search_from vec first pat \<le> p"
    by (rule search_from_found [OF assms(1,3)])
  show ?thesis
  proof (rule ccontr)
    assume "search_from vec first pat \<noteq> p"
    with le have lt: "search_from vec first pat < p" by simp
    with assms(2) have "search_from vec first pat < length vec" by simp
    from search_from_hit [OF this] assms(4) [OF search_from_ge lt]
    show False by simp
  qed
qed

lemma search_from_skip:
  assumes "first < length vec" "pat \<noteq> []" "vec ! first \<noteq> hd pat"
  shows "search_from vec first pat = search_from vec (first + 1) pat"
proof -
  have d: "drop first vec = vec ! first # drop (Suc first) vec"
    using assms(1) by (simp add: Cons_nth_drop_Suc)
  obtain a pat' where pat: "pat = a # pat'"
    using assms(2) by (cases pat) auto
  show ?thesis
    using assms(3) by (simp add: search_from_def d pat)
qed

lemma search_from_same:
  assumes "first \<le> a" "a \<le> search_from vec first pat" "search_from vec first pat < length vec"
  shows "search_from vec a pat = search_from vec first pat"
proof (rule search_from_eqI [OF assms(2,3)])
  show "take (length pat) (drop (search_from vec first pat) vec) = pat"
    by (rule search_from_hit [OF assms(3)])
next
  fix q assume "a \<le> q" "q < search_from vec first pat"
  with assms(1) show "take (length pat) (drop q vec) \<noteq> pat"
    by (intro search_from_first) simp_all
qed

text \<open>
  A search that succeeds in \<open>T\<close> gives the same hit, shifted by \<open>d\<close>, in every buffer that
  holds the bytes of \<open>T\<close> from the start of the search to the end of the hit at distance
  \<open>d\<close>.
\<close>

lemma search_from_window:
  assumes s: "search_from T a pat = p" and f: "p + length pat \<le> length T" and ne: "pat \<noteq> []"
    and l: "d + p + length pat \<le> length vec"
    and ag: "\<And>j. a \<le> j \<Longrightarrow> j < p + length pat \<Longrightarrow> vec ! (d + j) = T ! j"
  shows "search_from vec (d + a) pat = d + p"
proof (rule search_from_eqI)
  have ap: "a \<le> p" using search_from_ge [of a T pat] s by simp
  then show "d + a \<le> d + p" by simp
  from ne have lp: "0 < length pat" by simp
  from l lp show dp: "d + p < length vec" by arith
  have pT: "p < length T" using f lp by arith
  have hit: "take (length pat) (drop p T) = pat"
    using search_from_hit [of T a pat] pT s by simp
  from hit f have h: "\<forall>i<length pat. T ! (p + i) = pat ! i"
    by (simp add: window_eq_iff)
  show "take (length pat) (drop (d + p) vec) = pat"
  proof -
    have "\<forall>i<length pat. vec ! (d + p + i) = pat ! i"
    proof (intro allI impI)
      fix i assume i: "i < length pat"
      have "vec ! (d + (p + i)) = T ! (p + i)"
        using ap i by (intro ag) simp_all
      with h i show "vec ! (d + p + i) = pat ! i" by (simp add: add.assoc)
    qed
    with l show ?thesis by (simp add: window_eq_iff)
  qed
  fix q assume q: "d + a \<le> q" "q < d + p"
  show "take (length pat) (drop q vec) \<noteq> pat"
  proof
    assume eq: "take (length pat) (drop q vec) = pat"
    from q dp have "q \<le> length vec" by simp
    from window_hit_length [OF eq this] have ql: "q + length pat \<le> length vec" .
    with eq have v: "\<forall>i<length pat. vec ! (q + i) = pat ! i"
      by (simp add: window_eq_iff)
    define r where "r = q - d"
    have r: "q = d + r" "a \<le> r" "r < p" using q by (simp_all add: r_def)
    have rl: "r + length pat \<le> length T" using r f by simp
    have "\<forall>i<length pat. T ! (r + i) = pat ! i"
    proof (intro allI impI)
      fix i assume i: "i < length pat"
      have "vec ! (d + (r + i)) = T ! (r + i)"
        using r i by (intro ag) simp_all
      with v i r show "T ! (r + i) = pat ! i" by (simp add: add.assoc)
    qed
    with rl have "take (length pat) (drop r T) = pat"
      by (simp add: window_eq_iff)
    moreover have "take (length pat) (drop r T) \<noteq> pat"
      using r s by (intro search_from_first [of a]) simp_all
    ultimately show False by simp
  qed
qed

section \<open>The positions of the signatures\<close>

lemma length_local_positions [simp]: "length (local_positions vec a n) = n"
  by (induction n arbitrary: a) simp_all

lemma length_central_positions [simp]: "length (central_positions vec a n) = n"
  by (induction n arbitrary: a) simp_all

lemma central_positions_ge:
  "c \<in> set (central_positions vec a n) \<Longrightarrow> a \<le> c"
proof (induction n arbitrary: a)
  case 0
  then show ?case by simp
next
  case (Suc n)
  from Suc.prems consider "c = search_from vec a START_CENTRAL_DIR_SIG"
    | "c \<in> set (central_positions vec (search_from vec a START_CENTRAL_DIR_SIG + 46) n)"
    by auto
  then show ?case
  proof cases
    case 1
    then show ?thesis by (simp add: search_from_ge)
  next
    case 2
    from Suc.IH [OF 2] search_from_ge [of a vec START_CENTRAL_DIR_SIG] show ?thesis by simp
  qed
qed

lemma sig_lengths [simp]:
  "length ZIP_SIG = 4" "length START_CENTRAL_DIR_SIG = 4" "length END_CENTRAL_DIR_SIG = 4"
  "ZIP_SIG \<noteq> []" "START_CENTRAL_DIR_SIG \<noteq> []" "END_CENTRAL_DIR_SIG \<noteq> []"
  "hd ZIP_SIG = 0x50" "hd START_CENTRAL_DIR_SIG = 0x50" "hd END_CENTRAL_DIR_SIG = 0x50"
  by (simp_all add: ZIP_SIG_def START_CENTRAL_DIR_SIG_def END_CENTRAL_DIR_SIG_def)

lemma local_positions_window:
  assumes "list_all (\<lambda>p. p + 4 \<le> B) (local_positions T a n)" "B \<le> length T"
    "d + B \<le> length vec"
    and "\<And>j. a \<le> j \<Longrightarrow> j < B \<Longrightarrow> vec ! (d + j) = T ! j"
  shows "local_positions vec (d + a) n = map ((+) d) (local_positions T a n)"
  using assms
proof (induction n arbitrary: a)
  case 0
  then show ?case by simp
next
  case (Suc n)
  define p where "p = search_from T a ZIP_SIG"
  from Suc.prems(1) have pB: "p + 4 \<le> B"
    and rest: "list_all (\<lambda>p. p + 4 \<le> B) (local_positions T (p + 1) n)"
    by (simp_all add: p_def)
  have ap: "a \<le> p" by (simp add: p_def search_from_ge)
  have s: "search_from vec (d + a) ZIP_SIG = d + p"
  proof (rule search_from_window)
    show "search_from T a ZIP_SIG = p" by (simp add: p_def)
    show "p + length ZIP_SIG \<le> length T" using pB Suc.prems(2) by simp
    show "ZIP_SIG \<noteq> []" by simp
    show "d + p + length ZIP_SIG \<le> length vec" using pB Suc.prems(3) by simp
    fix j assume "a \<le> j" "j < p + length ZIP_SIG"
    with pB show "vec ! (d + j) = T ! j" by (intro Suc.prems(4)) simp_all
  qed
  have "local_positions vec (d + (p + 1)) n = map ((+) d) (local_positions T (p + 1) n)"
  proof (rule Suc.IH [OF rest Suc.prems(2,3)])
    fix j assume "p + 1 \<le> j" "j < B"
    with ap show "vec ! (d + j) = T ! j" by (intro Suc.prems(4)) simp_all
  qed
  with s show ?case by (simp add: p_def [symmetric] add.assoc)
qed

lemma central_positions_window:
  assumes "list_all (\<lambda>c. c + 4 \<le> B) (central_positions T a n)" "B \<le> length T"
    "d + B \<le> length vec"
    and "\<And>j. a \<le> j \<Longrightarrow> j < B \<Longrightarrow>
           \<forall>c \<in> set (central_positions T a n). j < c + 42 \<or> c + 45 < j \<Longrightarrow>
           vec ! (d + j) = T ! j"
  shows "central_positions vec (d + a) n = map ((+) d) (central_positions T a n)"
  using assms
proof (induction n arbitrary: a)
  case 0
  then show ?case by simp
next
  case (Suc n)
  define p where "p = search_from T a START_CENTRAL_DIR_SIG"
  define rest where "rest = central_positions T (p + 46) n"
  have cp: "central_positions T a (Suc n) = p # rest"
    by (simp add: p_def rest_def)
  from Suc.prems(1) have pB: "p + 4 \<le> B" and restB: "list_all (\<lambda>c. c + 4 \<le> B) rest"
    unfolding cp by simp_all
  have ap: "a \<le> p" by (simp add: p_def search_from_ge)
  have rest_ge: "p + 46 \<le> c" if "c \<in> set rest" for c
    using that central_positions_ge [of c T "p + 46" n] by (simp add: rest_def)
  have s: "search_from vec (d + a) START_CENTRAL_DIR_SIG = d + p"
  proof (rule search_from_window)
    show "search_from T a START_CENTRAL_DIR_SIG = p" by (simp add: p_def)
    show "p + length START_CENTRAL_DIR_SIG \<le> length T" using pB Suc.prems(2) by simp
    show "START_CENTRAL_DIR_SIG \<noteq> []" by simp
    show "d + p + length START_CENTRAL_DIR_SIG \<le> length vec" using pB Suc.prems(3) by simp
    fix j assume j: "a \<le> j" "j < p + length START_CENTRAL_DIR_SIG"
    have "\<forall>c \<in> set (central_positions T a (Suc n)). j < c + 42 \<or> c + 45 < j"
      unfolding cp using j rest_ge by fastforce
    with j pB show "vec ! (d + j) = T ! j" by (intro Suc.prems(4)) simp_all
  qed
  have "central_positions vec (d + (p + 46)) n = map ((+) d) (central_positions T (p + 46) n)"
  proof (rule Suc.IH [OF _ Suc.prems(2,3)])
    show "list_all (\<lambda>c. c + 4 \<le> B) (central_positions T (p + 46) n)"
      using restB by (simp add: rest_def)
    fix j assume j: "p + 46 \<le> j" "j < B"
      "\<forall>c \<in> set (central_positions T (p + 46) n). j < c + 42 \<or> c + 45 < j"
    have "\<forall>c \<in> set (central_positions T a (Suc n)). j < c + 42 \<or> c + 45 < j"
      unfolding cp using j by (simp add: rest_def)
    with j ap show "vec ! (d + j) = T ! j" by (intro Suc.prems(4)) simp_all
  qed
  with s show ?case by (simp add: p_def [symmetric] add.assoc)
qed

lemma local_positions_cong:
  assumes "list_all (\<lambda>p. p + 4 \<le> B) (local_positions T a n)" "B \<le> length T"
    "length vec = length T"
    and "\<And>j. a \<le> j \<Longrightarrow> j < B \<Longrightarrow> vec ! j = T ! j"
  shows "local_positions vec a n = local_positions T a n"
proof -
  have "local_positions vec (0 + a) n = map ((+) 0) (local_positions T a n)"
    using assms by (intro local_positions_window [where B = B]) simp_all
  moreover have "(+) (0 :: nat) = (\<lambda>x. x)" by auto
  ultimately show ?thesis by simp
qed

lemma central_positions_cong:
  assumes "list_all (\<lambda>c. c + 4 \<le> B) (central_positions T a n)" "B \<le> length T"
    "length vec = length T"
    and "\<And>j. a \<le> j \<Longrightarrow> j < B \<Longrightarrow>
           \<forall>c \<in> set (central_positions T a n). j < c + 42 \<or> c + 45 < j \<Longrightarrow> vec ! j = T ! j"
  shows "central_positions vec a n = central_positions T a n"
proof -
  have "central_positions vec (0 + a) n = map ((+) 0) (central_positions T a n)"
    using assms by (intro central_positions_window [where B = B]) simp_all
  moreover have "(+) (0 :: nat) = (\<lambda>x. x)" by auto
  ultimately show ?thesis by simp
qed

section \<open>The fixer on a regular archive\<close>

lemma msb_not_P:
  assumes "v < 1342177280"
  shows "(of_nat (v div 2 ^ 24 mod 256) :: byte) \<noteq> 0x50"
proof
  assume a: "(of_nat (v div 2 ^ 24 mod 256) :: byte) = 0x50"
  have "v div 2 ^ 24 < 80" using assms by simp
  then have "v div 2 ^ 24 mod 256 = v div 2 ^ 24" "v div 2 ^ 24 \<noteq> 80" by simp_all
  moreover have "unat (of_nat (v div 2 ^ 24 mod 256) :: byte) = v div 2 ^ 24 mod 256"
    by (rule unat_byte_of_nat)
  ultimately show False using a by simp
qed

lemma le32_field:
  assumes "3 \<le> c" "c < length vec" "v < 2 ^ 32"
  obtains vec1 where "Value_Updater vec c v 32 False = Inr vec1" "length vec1 = length vec"
    "\<And>j. j < c - 3 \<or> c < j \<Longrightarrow> vec1 ! j = vec ! j"
    "read_le (slice vec1 (c - 3) 4) = v"
    "vec1 ! c = of_nat (v div 2 ^ 24 mod 256)"
proof -
  from field_LE32 [OF assms(1,2), of v] obtain vec1 where
    1: "Value_Updater vec c v 32 False = Inr vec1" "length vec1 = length vec"
    "read_le (slice vec1 (c + 1 - 4) 4) = v mod 2 ^ 32"
    by blast
  from Value_Updater_LE32_Inr [OF 1(1) assms(1)]
  have e: "vec1 = vec[c := of_nat (v div 2 ^ 24 mod 256), c - 1 := of_nat (v div 2 ^ 16 mod 256),
                  c - 2 := of_nat (v div 2 ^ 8 mod 256), c - 3 := of_nat (v mod 256)]"
    by simp
  have 2: "vec1 ! j = vec ! j" if "j < c - 3 \<or> c < j" for j
    using that by (rule Value_Updater_LE32_frame(2) [OF 1(1) assms(1)])
  have 3: "vec1 ! c = of_nat (v div 2 ^ 24 mod 256)"
    using assms(1,2) by (simp add: e)
  have 4: "read_le (slice vec1 (c - 3) 4) = v"
    using 1(3) assms(1,3) by simp
  from 1 2 3 4 that show thesis by blast
qed

text \<open>
  The loop on a vector in which the next \<open>n\<close> local-file signatures lie before \<open>B\<close> and
  the next \<open>n\<close> central-directory entries after it: it writes the position of the
  \<open>k\<close>-th local-file signature into the offset field of the \<open>k\<close>-th entry.
\<close>

lemma fix_records_regular:
  assumes "search_from vec cli START_CENTRAL_DIR_SIG
             = search_from vec (cli + 1) START_CENTRAL_DIR_SIG"
    and "list_all (\<lambda>p. p + 4 \<le> B) (local_positions vec (off + 1) n)"
    and "list_all (\<lambda>c. B \<le> c \<and> c + 46 \<le> length vec) (central_positions vec (cli + 1) n)"
    and "length vec < 1342177280" "off + 1 \<le> length vec" "cli \<le> length vec"
  shows "\<exists>vec'. fix_records vec n off cli ws
             = Inr (vec', ws @ zip (map (\<lambda>c. c + 45) (central_positions vec (cli + 1) n))
                                  (local_positions vec (off + 1) n))
      \<and> length vec' = length vec
      \<and> (\<forall>j. (\<forall>c \<in> set (central_positions vec (cli + 1) n). j < c + 42 \<or> c + 45 < j)
             \<longrightarrow> vec' ! j = vec ! j)
      \<and> (\<forall>k<n. read_le (slice vec' (central_positions vec (cli + 1) n ! k + 42) 4)
                  = local_positions vec (off + 1) n ! k)"
  using assms
proof (induction n arbitrary: vec off cli ws)
  case 0
  show ?case by (simp add: fix_records.simps [of vec 0])
next
  case (Suc n)
  define lf where "lf = search_from vec (off + 1) ZIP_SIG"
  define cd where "cd = search_from vec (cli + 1) START_CENTRAL_DIR_SIG"
  define c where "c = 45 + cd"
  define lfs where "lfs = local_positions vec (lf + 1) n"
  define cds where "cds = central_positions vec (cd + 46) n"
  have L: "local_positions vec (off + 1) (Suc n) = lf # lfs"
    by (simp add: lf_def lfs_def)
  have C: "central_positions vec (cli + 1) (Suc n) = cd # cds"
    by (simp add: cd_def cds_def)
  from Suc.prems(2) have lfB: "lf + 4 \<le> B" and lfsB: "list_all (\<lambda>p. p + 4 \<le> B) lfs"
    unfolding L by simp_all
  from Suc.prems(3) have cdB: "B \<le> cd" "cd + 46 \<le> length vec"
    and cdsB: "list_all (\<lambda>c. B \<le> c \<and> c + 46 \<le> length vec) cds"
    unfolding C by simp_all
  have cds_ge: "cd + 46 \<le> d" if "d \<in> set cds" for d
    using that central_positions_ge [of d vec "cd + 46" n] by (simp add: cds_def)
  have c3: "3 \<le> c" "c < length vec" "c - 3 = cd + 42"
    using cdB by (simp_all add: c_def)
  have lf32: "lf < 2 ^ 32" "lf < 1342177280"
    using lfB cdB Suc.prems(4) by simp_all
  from le32_field [OF c3(1,2) lf32(1)] obtain vec1 where
    vu: "Value_Updater vec c lf 32 False = Inr vec1" and len1: "length vec1 = length vec"
    and fr1: "\<And>j. j < c - 3 \<or> c < j \<Longrightarrow> vec1 ! j = vec ! j"
    and rd1: "read_le (slice vec1 (c - 3) 4) = lf"
    and msb: "vec1 ! c = of_nat (lf div 2 ^ 24 mod 256)"
    by blast
  have step: "fix_records vec (Suc n) off cli ws = fix_records vec1 n lf c (ws @ [(c, lf)])"
    using Suc.prems(1,5,6) vu unfolding c_def cd_def lf_def
    by (simp add: fix_records.simps [of vec "Suc n"] Let_def)
  have lp: "local_positions vec1 (lf + 1) n = lfs"
    unfolding lfs_def
  proof (rule local_positions_cong [where B = B])
    show "list_all (\<lambda>p. p + 4 \<le> B) (local_positions vec (lf + 1) n)"
      using lfsB by (simp add: lfs_def)
    show "B \<le> length vec" using cdB by simp
    show "length vec1 = length vec" by (rule len1)
    fix j assume "j < B"
    with cdB c3 show "vec1 ! j = vec ! j" by (intro fr1) simp
  qed
  have cp: "central_positions vec1 (c + 1) n = cds"
  proof -
    have "central_positions vec1 (cd + 46) n = central_positions vec (cd + 46) n"
    proof (rule central_positions_cong [where B = "length vec"])
      show "list_all (\<lambda>c. c + 4 \<le> length vec) (central_positions vec (cd + 46) n)"
        using cdsB by (auto simp: cds_def list_all_iff)
      show "length vec1 = length vec" by (rule len1)
      fix j assume "cd + 46 \<le> j"
      then show "vec1 ! j = vec ! j" by (intro fr1) (simp add: c_def)
    qed simp
    then show ?thesis by (simp add: cds_def c_def add.commute)
  qed
  have skip: "search_from vec1 c START_CENTRAL_DIR_SIG
             = search_from vec1 (c + 1) START_CENTRAL_DIR_SIG"
  proof (rule search_from_skip)
    show "c < length vec1" using c3 len1 by simp
    show "START_CENTRAL_DIR_SIG \<noteq> []" by simp
    show "vec1 ! c \<noteq> hd START_CENTRAL_DIR_SIG"
      using msb_not_P [OF lf32(2)] by (simp add: msb)
  qed
  have "\<exists>vec'. fix_records vec1 n lf c (ws @ [(c, lf)])
             = Inr (vec', (ws @ [(c, lf)]) @ zip (map (\<lambda>c. c + 45) (central_positions vec1 (c + 1) n))
                                  (local_positions vec1 (lf + 1) n))
      \<and> length vec' = length vec1
      \<and> (\<forall>j. (\<forall>c \<in> set (central_positions vec1 (c + 1) n). j < c + 42 \<or> c + 45 < j)
             \<longrightarrow> vec' ! j = vec1 ! j)
      \<and> (\<forall>k<n. read_le (slice vec' (central_positions vec1 (c + 1) n ! k + 42) 4)
                  = local_positions vec1 (lf + 1) n ! k)"
  proof (rule Suc.IH [OF skip])
    show "list_all (\<lambda>p. p + 4 \<le> B) (local_positions vec1 (lf + 1) n)"
      unfolding lp by (rule lfsB)
    show "list_all (\<lambda>c. B \<le> c \<and> c + 46 \<le> length vec1) (central_positions vec1 (c + 1) n)"
      unfolding cp len1 by (rule cdsB)
    show "length vec1 < 1342177280" using Suc.prems(4) len1 by simp
    show "lf + 1 \<le> length vec1" using lfB cdB len1 by simp
    show "c \<le> length vec1" using c3 len1 by simp
  qed
  then obtain vec' where
    r: "fix_records vec1 n lf c (ws @ [(c, lf)])
          = Inr (vec', (ws @ [(c, lf)]) @ zip (map (\<lambda>c. c + 45) cds) lfs)"
    and len': "length vec' = length vec1"
    and fr': "\<And>j. (\<forall>c \<in> set cds. j < c + 42 \<or> c + 45 < j) \<Longrightarrow> vec' ! j = vec1 ! j"
    and rd': "\<And>k. k < n \<Longrightarrow> read_le (slice vec' (cds ! k + 42) 4) = lfs ! k"
    unfolding lp cp by blast
  have res: "fix_records vec (Suc n) off cli ws
      = Inr (vec', ws @ zip (map (\<lambda>c. c + 45) (cd # cds)) (lf # lfs))"
    using step r by (simp add: c_def)
  have frame: "vec' ! j = vec ! j" if "\<forall>c \<in> set (cd # cds). j < c + 42 \<or> c + 45 < j" for j
  proof -
    have "vec' ! j = vec1 ! j" using that by (intro fr') simp
    also have "vec1 ! j = vec ! j" using that c3 by (intro fr1) (auto simp: c_def)
    finally show ?thesis .
  qed
  have field0: "read_le (slice vec' (cd + 42) 4) = lf"
  proof -
    have "slice vec' (cd + 42) 4 = slice vec1 (cd + 42) 4"
    proof (rule slice_cong)
      show "cd + 42 + 4 \<le> length vec1" using cdB len1 by simp
      show "length vec' = length vec1" by (rule len')
      fix j assume j: "cd + 42 \<le> j" "j < cd + 42 + 4"
      have "\<forall>d \<in> set cds. j < d + 42 \<or> d + 45 < j"
        using cds_ge j by fastforce
      then show "vec' ! j = vec1 ! j" by (rule fr')
    qed
    with rd1 c3 show ?thesis by simp
  qed
  have fields: "read_le (slice vec' ((cd # cds) ! k + 42) 4) = (lf # lfs) ! k" if "k < Suc n" for k
  proof (cases k)
    case 0
    with field0 show ?thesis by simp
  next
    case (Suc k')
    with that rd' [of k'] show ?thesis by simp
  qed
  show ?case
    unfolding L C using res len' len1 frame fields by auto
qed

text \<open>
  The fixer on a vector in which the searches find a regular archive: it succeeds, writes
  into the offset field of the \<open>k\<close>-th central-directory entry the position of the
  \<open>k\<close>-th local-file signature and into the end record the position of the first
  central-directory signature, and changes nothing but these fields and the comment
  length.
\<close>

lemma Fix_Zip_Offset_regular:
  assumes S: "S = search_from vec idx START_CENTRAL_DIR_SIG"
    and E: "E = search_from vec S END_CENTRAL_DIR_SIG"
    and n: "n = read_le (slice vec (E + 10) 2)"
    and lfs: "lfs = local_positions vec (idx + 1) n"
    and cds: "cds = central_positions vec S n"
    and idx: "idx < S" and len: "E + 22 \<le> length vec" "length vec < 1342177280"
    and lB: "list_all (\<lambda>p. p + 4 \<le> S) lfs"
    and cB: "list_all (\<lambda>c. c + 46 \<le> E) cds"
  shows "\<exists>vec'. Fix_Zip_Offset_trace vec idx = Inr (vec', zip (map (\<lambda>c. c + 45) cds) lfs)
      \<and> length vec' = length vec
      \<and> (\<forall>j<length vec. (\<forall>c \<in> set cds. j < c + 42 \<or> c + 45 < j) \<and> (j < E + 16 \<or> E + 21 < j)
             \<longrightarrow> vec' ! j = vec ! j)
      \<and> (\<forall>k<n. read_le (slice vec' (cds ! k + 42) 4) = lfs ! k)
      \<and> read_le (slice vec' (E + 16) 4) = S
      \<and> read_le (slice vec' (E + 20) 2) = (read_le (slice vec (E + 20) 2) + 16) mod 2 ^ 16"
proof -
  have SE: "S \<le> E" unfolding E by (rule search_from_ge)
  with len have Sl: "S < length vec" by simp
  have S1: "S - 1 + 1 = S" using idx by simp
  have Sfound: "search_from vec idx START_CENTRAL_DIR_SIG < length vec"
    using Sl S by simp
  have s1: "search_from vec (S - 1) START_CENTRAL_DIR_SIG = S"
    using search_from_same [OF _ _ Sfound, of "S - 1"] idx S by simp
  have s2: "search_from vec S START_CENTRAL_DIR_SIG = S"
    using search_from_same [OF _ _ Sfound, of S] idx S by simp
  have cds_ge: "S \<le> c" if "c \<in> set cds" for c
    using that central_positions_ge [of c vec S n] by (simp add: cds)
  have cds_E: "c + 46 \<le> E" if "c \<in> set cds" for c
    using that cB by (simp add: list_all_iff)
  have "\<exists>vec'. fix_records vec n idx (S - 1) []
             = Inr (vec', [] @ zip (map (\<lambda>c. c + 45) (central_positions vec (S - 1 + 1) n))
                                  (local_positions vec (idx + 1) n))
      \<and> length vec' = length vec
      \<and> (\<forall>j. (\<forall>c \<in> set (central_positions vec (S - 1 + 1) n). j < c + 42 \<or> c + 45 < j)
             \<longrightarrow> vec' ! j = vec ! j)
      \<and> (\<forall>k<n. read_le (slice vec' (central_positions vec (S - 1 + 1) n ! k + 42) 4)
                  = local_positions vec (idx + 1) n ! k)"
  proof (rule fix_records_regular [where B = S])
    show "search_from vec (S - 1) START_CENTRAL_DIR_SIG
        = search_from vec (S - 1 + 1) START_CENTRAL_DIR_SIG"
      unfolding S1 s1 s2 ..
    show "list_all (\<lambda>p. p + 4 \<le> S) (local_positions vec (idx + 1) n)"
      using lB by (simp add: lfs)
    show "list_all (\<lambda>c. S \<le> c \<and> c + 46 \<le> length vec) (central_positions vec (S - 1 + 1) n)"
      unfolding S1 cds [symmetric] using cds_ge cds_E len by (fastforce simp: list_all_iff)
    show "length vec < 1342177280" by (rule len)
    show "idx + 1 \<le> length vec" using idx Sl by simp
    show "S - 1 \<le> length vec" using Sl by simp
  qed
  then obtain vec1 where
    f: "fix_records vec n idx (S - 1) [] = Inr (vec1, zip (map (\<lambda>c. c + 45) cds) lfs)"
    and len1: "length vec1 = length vec"
    and fr1: "\<And>j. (\<forall>c \<in> set cds. j < c + 42 \<or> c + 45 < j) \<Longrightarrow> vec1 ! j = vec ! j"
    and rd1: "\<And>k. k < n \<Longrightarrow> read_le (slice vec1 (cds ! k + 42) 4) = lfs ! k"
    unfolding S1 cds [symmetric] lfs [symmetric] by auto
  have "S < 2 ^ 32" using Sl len by simp
  from le32_field [of "E + 19" vec1 S, OF _ _ this] len len1 obtain vec2 where
    vu2: "Value_Updater vec1 (E + 19) S 32 False = Inr vec2" and len2: "length vec2 = length vec1"
    and fr2: "\<And>j. j < E + 19 - 3 \<or> E + 19 < j \<Longrightarrow> vec2 ! j = vec1 ! j"
    and rd2: "read_le (slice vec2 (E + 19 - 3) 4) = S"
    by auto
  define cl where "cl = 16 + get_u16 (vec2 ! (E + 21)) (vec2 ! (E + 21 - 1))"
  from field_LE16 [of "E + 21" vec2 cl] len len1 len2 obtain vec3 where
    vu3: "Value_Updater vec2 (E + 21) cl 16 False = Inr vec3" and len3: "length vec3 = length vec2"
    and fr3: "\<And>j. j < length vec2 \<Longrightarrow> j + 2 \<le> E + 21 \<or> E + 21 < j \<Longrightarrow> vec3 ! j = vec2 ! j"
    and rd3: "read_le (slice vec3 (E + 21 + 1 - 2) 2) = cl mod 2 ^ 16"
    by auto
  have cnt: "get_u16 (vec ! (E + 11)) (vec ! (E + 11 - 1)) = n"
    using len by (simp add: n get_u16_read_le slice_2 add.commute)
  have run: "Fix_Zip_Offset_trace vec idx = Inr (vec3, zip (map (\<lambda>c. c + 45) cds) lfs)"
    unfolding Fix_Zip_Offset_trace_def START_CENTRAL_DIR_INDEX_def END_CENTRAL_DIR_INDEX_def
      S [symmetric] E [symmetric] Let_def cnt
    using idx Sl len len1 len2 f vu2 vu3 [unfolded cl_def]
    by (simp del: One_nat_def)
  have lenf: "length vec3 = length vec"
    using len1 len2 len3 by simp
  have frame: "vec3 ! j = vec ! j"
    if "j < length vec" "\<forall>c \<in> set cds. j < c + 42 \<or> c + 45 < j" "j < E + 16 \<or> E + 21 < j" for j
  proof -
    have "vec3 ! j = vec2 ! j" using that(1,3) len1 len2 by (intro fr3) auto
    also have "vec2 ! j = vec1 ! j" using that(3) by (intro fr2) auto
    also have "vec1 ! j = vec ! j" using that(2) by (rule fr1)
    finally show ?thesis .
  qed
  have fields: "read_le (slice vec3 (cds ! k + 42) 4) = lfs ! k" if "k < n" for k
  proof -
    have kc: "cds ! k \<in> set cds" using that by (simp add: cds)
    have "slice vec3 (cds ! k + 42) 4 = slice vec1 (cds ! k + 42) 4"
    proof (rule slice_cong)
      show "cds ! k + 42 + 4 \<le> length vec1" using cds_E [OF kc] len len1 by simp
      show "length vec3 = length vec1" using len2 len3 by simp
      fix j assume j: "cds ! k + 42 \<le> j" "j < cds ! k + 42 + 4"
      with cds_E [OF kc] have jE: "j < E" by simp
      have "vec3 ! j = vec2 ! j" using jE len len1 len2 by (intro fr3) auto
      also have "vec2 ! j = vec1 ! j" using jE by (intro fr2) auto
      finally show "vec3 ! j = vec1 ! j" .
    qed
    with rd1 [OF that] show ?thesis by simp
  qed
  have efield: "read_le (slice vec3 (E + 16) 4) = S"
  proof -
    have "slice vec3 (E + 16) 4 = slice vec2 (E + 16) 4"
    proof (rule slice_cong)
      show "E + 16 + 4 \<le> length vec2" using len len1 len2 by simp
      show "length vec3 = length vec2" by (rule len3)
      fix j assume j: "E + 16 \<le> j" "j < E + 16 + 4"
      then show "vec3 ! j = vec2 ! j" using len len1 len2 by (intro fr3) auto
    qed
    with rd2 show ?thesis by (simp add: add.commute)
  qed
  have cfield: "read_le (slice vec3 (E + 20) 2) = (read_le (slice vec (E + 20) 2) + 16) mod 2 ^ 16"
  proof -
    have same: "vec2 ! j = vec ! j" if "E + 20 \<le> j" "j \<le> E + 21" for j
    proof -
      have "vec2 ! j = vec1 ! j" using that by (intro fr2) auto
      also have "vec1 ! j = vec ! j"
      proof (rule fr1, rule ballI)
        fix c assume "c \<in> set cds"
        from cds_E [OF this] that show "j < c + 42 \<or> c + 45 < j" by simp
      qed
      finally show ?thesis .
    qed
    have "cl = 16 + read_le (slice vec (E + 20) 2)"
      using len same [of "E + 20"] same [of "E + 21"]
      by (simp add: cl_def get_u16_read_le slice_2 add.commute)
    with rd3 show ?thesis by (simp add: add.commute)
  qed
  from run lenf frame fields efield cfield show ?thesis by blast
qed

section \<open>The signatures stay where they are\<close>

lemma central_positions_hit:
  "c \<in> set (central_positions vec a n) \<Longrightarrow> c < length vec \<Longrightarrow>
   slice vec c 4 = START_CENTRAL_DIR_SIG"
proof (induction n arbitrary: a)
  case 0
  then show ?case by simp
next
  case (Suc n)
  from Suc.prems(1) consider "c = search_from vec a START_CENTRAL_DIR_SIG"
    | "c \<in> set (central_positions vec (search_from vec a START_CENTRAL_DIR_SIG + 46) n)"
    by auto
  then show ?case
  proof cases
    case 1
    with Suc.prems(2) search_from_hit [of vec a START_CENTRAL_DIR_SIG] show ?thesis
      by (simp add: slice_def)
  next
    case 2
    from Suc.IH [OF 2 Suc.prems(2)] show ?thesis .
  qed
qed

lemma local_positions_hit:
  "p \<in> set (local_positions vec a n) \<Longrightarrow> p < length vec \<Longrightarrow> slice vec p 4 = ZIP_SIG"
proof (induction n arbitrary: a)
  case 0
  then show ?case by simp
next
  case (Suc n)
  from Suc.prems(1) consider "p = search_from vec a ZIP_SIG"
    | "p \<in> set (local_positions vec (search_from vec a ZIP_SIG + 1) n)"
    by auto
  then show ?case
  proof cases
    case 1
    with Suc.prems(2) search_from_hit [of vec a ZIP_SIG] show ?thesis
      by (simp add: slice_def)
  next
    case 2
    from Suc.IH [OF 2 Suc.prems(2)] show ?thesis .
  qed
qed

lemma central_positions_apart:
  "c \<in> set (central_positions vec a n) \<Longrightarrow> c' \<in> set (central_positions vec a n) \<Longrightarrow>
   c = c' \<or> c + 46 \<le> c' \<or> c' + 46 \<le> c"
proof (induction n arbitrary: a)
  case 0
  then show ?case by simp
next
  case (Suc n)
  define p where "p = search_from vec a START_CENTRAL_DIR_SIG"
  have ge: "p + 46 \<le> d" if "d \<in> set (central_positions vec (p + 46) n)" for d
    using that by (rule central_positions_ge)
  from Suc.prems have "c = p \<or> c \<in> set (central_positions vec (p + 46) n)"
    "c' = p \<or> c' \<in> set (central_positions vec (p + 46) n)"
    by (auto simp: p_def)
  then show ?case
    using ge [of c] ge [of c'] Suc.IH [of "p + 46"] by auto
qed

section \<open>The fixer on a regular buffer\<close>

lemma regular_buffer_run:
  assumes r: "regular_buffer vec idx"
    and S: "S = START_CENTRAL_DIR_INDEX vec idx" and E: "E = END_CENTRAL_DIR_INDEX vec idx"
    and n: "n = read_le (slice vec (E + 10) 2)"
    and cds: "cds = central_positions vec S n"
    and lfs: "lfs = local_positions vec (idx + 1) n"
  shows "\<exists>vec'. Fix_Zip_Offset_trace vec idx = Inr (vec', zip (map (\<lambda>c. c + 45) cds) lfs)
      \<and> length vec' = length vec
      \<and> (\<forall>j<length vec. (\<forall>c \<in> set cds. j < c + 42 \<or> c + 45 < j) \<and> (j < E + 16 \<or> E + 21 < j)
             \<longrightarrow> vec' ! j = vec ! j)
      \<and> (\<forall>k<n. read_le (slice vec' (cds ! k + 42) 4) = lfs ! k)
      \<and> read_le (slice vec' (E + 16) 4) = S
      \<and> read_le (slice vec' (E + 20) 2) = (read_le (slice vec (E + 20) 2) + 16) mod 2 ^ 16
      \<and> (\<forall>c \<in> set cds. slice vec' c 4 = START_CENTRAL_DIR_SIG)
      \<and> (\<forall>p \<in> set lfs. slice vec' p 4 = ZIP_SIG)"
proof -
  have S': "S = search_from vec idx START_CENTRAL_DIR_SIG"
    by (simp add: S START_CENTRAL_DIR_INDEX_def)
  have E': "E = search_from vec S END_CENTRAL_DIR_SIG"
    by (simp add: E S END_CENTRAL_DIR_INDEX_def)
  from r have h: "idx < S" "E + 22 \<le> length vec" "length vec < 1342177280"
    "list_all (\<lambda>p. p + 4 \<le> S) lfs" "list_all (\<lambda>c. c + 46 \<le> E) cds"
    unfolding regular_buffer_def Let_def S [symmetric] E [symmetric] n [symmetric]
      cds [symmetric] lfs [symmetric]
    by simp_all
  from Fix_Zip_Offset_regular [OF S' E' n lfs cds h] obtain vec' where
    run: "Fix_Zip_Offset_trace vec idx = Inr (vec', zip (map (\<lambda>c. c + 45) cds) lfs)"
    and len: "length vec' = length vec"
    and fr: "\<And>j. j < length vec \<Longrightarrow> \<forall>c \<in> set cds. j < c + 42 \<or> c + 45 < j \<Longrightarrow>
        j < E + 16 \<or> E + 21 < j \<Longrightarrow> vec' ! j = vec ! j"
    and fields: "\<And>k. k < n \<Longrightarrow> read_le (slice vec' (cds ! k + 42) 4) = lfs ! k"
    and ef: "read_le (slice vec' (E + 16) 4) = S"
    and cf: "read_le (slice vec' (E + 20) 2) = (read_le (slice vec (E + 20) 2) + 16) mod 2 ^ 16"
    by blast
  have SE: "S \<le> E" unfolding E' by (rule search_from_ge)
  have cds_E: "c + 46 \<le> E" if "c \<in> set cds" for c
    using that h(5) by (simp add: list_all_iff)
  have cds_S: "S \<le> c" if "c \<in> set cds" for c
    using that central_positions_ge [of c vec S n] by (simp add: cds)
  have lfs_S: "p + 4 \<le> S" if "p \<in> set lfs" for p
    using that h(4) by (simp add: list_all_iff)
  have csig: "slice vec' c 4 = START_CENTRAL_DIR_SIG" if c: "c \<in> set cds" for c
  proof -
    have "slice vec' c 4 = slice vec c 4"
    proof (rule slice_cong)
      show "c + 4 \<le> length vec" using cds_E [OF c] h(2) by simp
      show "length vec' = length vec" by (rule len)
      fix j assume j: "c \<le> j" "j < c + 4"
      have "\<forall>c' \<in> set cds. j < c' + 42 \<or> c' + 45 < j"
      proof
        fix c' assume "c' \<in> set cds"
        with c have "c = c' \<or> c + 46 \<le> c' \<or> c' + 46 \<le> c"
          unfolding cds by (rule central_positions_apart)
        with j show "j < c' + 42 \<or> c' + 45 < j" by auto
      qed
      with j cds_E [OF c] h(2) show "vec' ! j = vec ! j" by (intro fr) simp_all
    qed
    moreover have "slice vec c 4 = START_CENTRAL_DIR_SIG"
      using c cds_E [OF c] h(2) by (intro central_positions_hit [of c vec S n]) (simp_all add: cds)
    ultimately show ?thesis by simp
  qed
  have lsig: "slice vec' p 4 = ZIP_SIG" if p: "p \<in> set lfs" for p
  proof -
    have "slice vec' p 4 = slice vec p 4"
    proof (rule slice_cong)
      show "p + 4 \<le> length vec" using lfs_S [OF p] SE h(2) by simp
      show "length vec' = length vec" by (rule len)
      fix j assume j: "p \<le> j" "j < p + 4"
      have "\<forall>c' \<in> set cds. j < c' + 42 \<or> c' + 45 < j"
        using j lfs_S [OF p] cds_S by fastforce
      with j lfs_S [OF p] SE h(2) show "vec' ! j = vec ! j" by (intro fr) simp_all
    qed
    moreover have "slice vec p 4 = ZIP_SIG"
      using p lfs_S [OF p] SE h(2)
      by (intro local_positions_hit [of p vec "idx + 1" n]) (simp_all add: lfs)
    ultimately show ?thesis by simp
  qed
  from run len fr fields ef cf csig lsig show ?thesis by blast
qed

lemma positions_numeral:
  "local_positions vec a (numeral k) = local_positions vec a (Suc (pred_numeral k))"
  "central_positions vec a (numeral k) = central_positions vec a (Suc (pred_numeral k))"
  by (simp_all add: numeral_eq_Suc)

lemma two_example_run:
  "Fix_Zip_Offset_trace zip_chunk_two_example 0
     = Inr (zip_chunk_two_example_fixed, [(121, 4), (172, 41)])"
  by (simp add: zip_chunk_two_example_def zip_chunk_two_example_fixed_def fix_eval)

lemmas regular_eval =
  regular_buffer_def START_CENTRAL_DIR_INDEX_def END_CENTRAL_DIR_INDEX_def
  START_CENTRAL_DIR_SIG_def END_CENTRAL_DIR_SIG_def ZIP_SIG_def search_from_def
  slice_def read_le_def read_be_def Let_def

lemma two_example_regular:
  "regular_buffer zip_chunk_two_example 0"
  "START_CENTRAL_DIR_INDEX zip_chunk_two_example 0 = 76"
  "END_CENTRAL_DIR_INDEX zip_chunk_two_example 0 = 178"
  "read_le (slice zip_chunk_two_example 188 2) = 2"
  "central_positions zip_chunk_two_example 76 2 = [76, 127]"
  "local_positions zip_chunk_two_example (Suc 0) 2 = [4, 41]"
  by (simp_all add: zip_chunk_two_example_def regular_eval positions_numeral)

section \<open>The number of records and the fields written\<close>

text \<open>
  C6 as the source has it. The fixer reads the number \<open>n\<close> of records as the 16-bit
  little-endian value of the bytes at offsets 10 and 11 from the first byte of the
  end-of-central-directory signature. Whenever it succeeds, its loop has made exactly \<open>n\<close>
  writes, each a four-byte field that ends at least 45 bytes after the one before. On a
  regular buffer it succeeds, and the fields written are the bytes 42 to 45 of the first
  \<open>n\<close> central-directory entries: in the result each of these entries still starts with
  its signature and holds in that field the position of the corresponding local-file
  signature, and no byte is changed outside these fields and the bytes 16 to 21 of the
  end record.
\<close>

theorem Fix_Zip_Offset_record_count:
  assumes n: "n = read_le (slice vec (END_CENTRAL_DIR_INDEX vec idx + 10) 2)"
    and cds: "cds = central_positions vec (START_CENTRAL_DIR_INDEX vec idx) n"
    and lfs: "lfs = local_positions vec (idx + 1) n"
  shows "(Fix_Zip_Offset_trace vec idx = Inr (vec', written) \<longrightarrow>
            length written = n
          \<and> sorted_wrt (\<lambda>a b. a + 45 \<le> b) (map fst written)
          \<and> (\<forall>c \<in> set (map fst written). 45 \<le> c \<and> c < length vec))
       \<and> (regular_buffer vec idx \<longrightarrow>
            (\<exists>res. Fix_Zip_Offset_trace vec idx = Inr (res, zip (map (\<lambda>c. c + 45) cds) lfs)
               \<and> length res = length vec
               \<and> (\<forall>k<n. slice res (cds ! k) 4 = START_CENTRAL_DIR_SIG
                        \<and> read_le (slice res (cds ! k + 42) 4) = lfs ! k
                        \<and> slice res (lfs ! k) 4 = ZIP_SIG)
               \<and> (\<forall>j<length vec.
                     (\<forall>c \<in> set cds. j < c + 42 \<or> c + 45 < j)
                     \<and> (j < END_CENTRAL_DIR_INDEX vec idx + 16
                          \<or> END_CENTRAL_DIR_INDEX vec idx + 21 < j)
                     \<longrightarrow> res ! j = vec ! j)))"
proof (intro conjI impI)
  assume run: "Fix_Zip_Offset_trace vec idx = Inr (vec', written)"
  then obtain vec1 where
    e: "END_CENTRAL_DIR_INDEX vec idx + 11 < length vec"
    and f: "fix_records vec (zip_records_of vec idx) idx
       (if START_CENTRAL_DIR_INDEX vec idx = 0 then 2 ^ 64 - 1
        else START_CENTRAL_DIR_INDEX vec idx - 1) [] = Inr (vec1, written)"
    by (rule Fix_Zip_Offset_trace_Inr)
  from fix_records_trace [OF f] e
  have "length written = n \<and> sorted_wrt (\<lambda>a b. a + 45 \<le> b) (map fst written)
      \<and> (\<forall>c \<in> set (map fst written). 45 \<le> c \<and> c < length vec)"
    by (auto simp: zip_records_of_read_le n)
  then show "length written = n" "sorted_wrt (\<lambda>a b. a + 45 \<le> b) (map fst written)"
    "\<forall>c \<in> set (map fst written). 45 \<le> c \<and> c < length vec"
    by blast+
next
  assume r: "regular_buffer vec idx"
  from regular_buffer_run [OF r refl refl n cds lfs] obtain res where
    run: "Fix_Zip_Offset_trace vec idx = Inr (res, zip (map (\<lambda>c. c + 45) cds) lfs)"
    and len: "length res = length vec"
    and fr: "\<forall>j<length vec. (\<forall>c \<in> set cds. j < c + 42 \<or> c + 45 < j)
        \<and> (j < END_CENTRAL_DIR_INDEX vec idx + 16 \<or> END_CENTRAL_DIR_INDEX vec idx + 21 < j)
        \<longrightarrow> res ! j = vec ! j"
    and fields: "\<forall>k<n. read_le (slice res (cds ! k + 42) 4) = lfs ! k"
    and csig: "\<forall>c \<in> set cds. slice res c 4 = START_CENTRAL_DIR_SIG"
    and lsig: "\<forall>p \<in> set lfs. slice res p 4 = ZIP_SIG"
    by blast
  have mem: "cds ! k \<in> set cds" "lfs ! k \<in> set lfs" if "k < n" for k
    using that by (simp_all add: cds lfs)
  have sigs: "\<forall>k<n. slice res (cds ! k) 4 = START_CENTRAL_DIR_SIG
      \<and> read_le (slice res (cds ! k + 42) 4) = lfs ! k \<and> slice res (lfs ! k) 4 = ZIP_SIG"
    using mem csig lsig fields by blast
  from run len fr sigs
  show "\<exists>res. Fix_Zip_Offset_trace vec idx = Inr (res, zip (map (\<lambda>c. c + 45) cds) lfs)
               \<and> length res = length vec
               \<and> (\<forall>k<n. slice res (cds ! k) 4 = START_CENTRAL_DIR_SIG
                        \<and> read_le (slice res (cds ! k + 42) 4) = lfs ! k
                        \<and> slice res (lfs ! k) 4 = ZIP_SIG)
               \<and> (\<forall>j<length vec.
                     (\<forall>c \<in> set cds. j < c + 42 \<or> c + 45 < j)
                     \<and> (j < END_CENTRAL_DIR_INDEX vec idx + 16
                          \<or> END_CENTRAL_DIR_INDEX vec idx + 21 < j)
                     \<longrightarrow> res ! j = vec ! j)"
    by blast
qed

text \<open>
  The theorem on the archive with two entries: two records are counted, the fields at
  118 and 169 of the entries at 76 and 127 receive the positions 4 and 41 of the two
  local-file signatures.
\<close>

theorem Fix_Zip_Offset_record_count_witness:
  "Fix_Zip_Offset_trace zip_chunk_two_example 0
     = Inr (zip_chunk_two_example_fixed, [(121, 4), (172, 41)])
   \<and> read_le (slice zip_chunk_two_example (END_CENTRAL_DIR_INDEX zip_chunk_two_example 0 + 10) 2) = 2
   \<and> length [(121 :: nat, 4 :: nat), (172, 41)] = 2
   \<and> slice zip_chunk_two_example_fixed 76 4 = START_CENTRAL_DIR_SIG
   \<and> read_le (slice zip_chunk_two_example_fixed (76 + 42) 4) = 4
   \<and> slice zip_chunk_two_example_fixed 4 4 = ZIP_SIG
   \<and> slice zip_chunk_two_example_fixed 127 4 = START_CENTRAL_DIR_SIG
   \<and> read_le (slice zip_chunk_two_example_fixed (127 + 42) 4) = 41
   \<and> slice zip_chunk_two_example_fixed 41 4 = ZIP_SIG"
proof -
  have n: "2 = read_le (slice zip_chunk_two_example (END_CENTRAL_DIR_INDEX zip_chunk_two_example 0 + 10) 2)"
    by (simp add: two_example_regular)
  have cds: "[76, 127] = central_positions zip_chunk_two_example
      (START_CENTRAL_DIR_INDEX zip_chunk_two_example 0) 2"
    by (simp add: two_example_regular)
  have lfs: "[4, 41] = local_positions zip_chunk_two_example (0 + 1) 2"
    by (simp add: two_example_regular)
  note t = Fix_Zip_Offset_record_count [OF n cds lfs, of zip_chunk_two_example_fixed
      "[(121, 4), (172, 41)]"]
  from t two_example_regular(1) two_example_run
  have a: "\<forall>k<2. slice zip_chunk_two_example_fixed ([76, 127] ! k) 4 = START_CENTRAL_DIR_SIG
         \<and> read_le (slice zip_chunk_two_example_fixed ([76, 127] ! k + 42) 4) = [4, 41] ! k
         \<and> slice zip_chunk_two_example_fixed ([4, 41] ! k) 4 = ZIP_SIG"
    by auto
  from a [unfolded all_less_2] two_example_run n show ?thesis
    by simp
qed

section \<open>The comment length\<close>

text \<open>
  C10 on a regular buffer. The fixer succeeds and stores as the comment length of the end
  record, in the two bytes at offsets 20 and 21 from the end-of-central-directory
  signature, least significant first, the comment length of the input plus 16 modulo
  \<open>2 ^ 16\<close>: a length below 65520 grows by 16, a length of 65520 or more wraps around
  to the length minus 65520, which is less than 16. The bytes after these two are those
  of the input.
\<close>

theorem Fix_Zip_Offset_comment_length:
  assumes r: "regular_buffer vec idx"
    and E: "E = END_CENTRAL_DIR_INDEX vec idx"
    and old: "old = read_le (slice vec (E + 20) 2)"
  shows "\<exists>vec' written. Fix_Zip_Offset_trace vec idx = Inr (vec', written)
      \<and> read_le (slice vec' (E + 20) 2) = (old + 16) mod 2 ^ 16
      \<and> (old < 65520 \<longrightarrow> read_le (slice vec' (E + 20) 2) = old + 16)
      \<and> (65520 \<le> old \<longrightarrow> read_le (slice vec' (E + 20) 2) = old - 65520 \<and> old - 65520 < 16)
      \<and> length vec' = length vec
      \<and> (\<forall>j<length vec. E + 21 < j \<longrightarrow> vec' ! j = vec ! j)"
proof -
  define n where "n = read_le (slice vec (E + 10) 2)"
  define cds where "cds = central_positions vec (START_CENTRAL_DIR_INDEX vec idx) n"
  from regular_buffer_run [OF r refl E n_def cds_def refl] obtain vec' where
    run: "Fix_Zip_Offset_trace vec idx
            = Inr (vec', zip (map (\<lambda>c. c + 45) cds) (local_positions vec (idx + 1) n))"
    and len: "length vec' = length vec"
    and fr: "\<forall>j<length vec. (\<forall>c \<in> set cds. j < c + 42 \<or> c + 45 < j) \<and> (j < E + 16 \<or> E + 21 < j)
        \<longrightarrow> vec' ! j = vec ! j"
    and cf: "read_le (slice vec' (E + 20) 2) = (old + 16) mod 2 ^ 16"
    unfolding old by blast
  from r have h: "E + 22 \<le> length vec" "list_all (\<lambda>c. c + 46 \<le> E) cds"
    unfolding regular_buffer_def Let_def E [symmetric] n_def [symmetric] cds_def [symmetric]
    by simp_all
  have old_lt: "old < 65536"
    using unat_byte_less [of "vec ! (E + 20)"] unat_byte_less [of "vec ! (E + 21)"] h(1)
    by (simp add: old slice_2 read_le_def read_be_def add.commute)
  have frame: "\<forall>j<length vec. E + 21 < j \<longrightarrow> vec' ! j = vec ! j"
  proof (intro allI impI)
    fix j assume j: "j < length vec" "E + 21 < j"
    have "\<forall>c \<in> set cds. j < c + 42 \<or> c + 45 < j"
      using h(2) j(2) by (auto simp: list_all_iff)
    with fr j show "vec' ! j = vec ! j" by simp
  qed
  have small: "old < 65520 \<longrightarrow> read_le (slice vec' (E + 20) 2) = old + 16"
    by (simp add: cf)
  have wrap: "65520 \<le> old \<longrightarrow> read_le (slice vec' (E + 20) 2) = old - 65520 \<and> old - 65520 < 16"
    using old_lt by (auto simp: cf mod_if)
  from run cf len frame small wrap show ?thesis
    by blast
qed

lemma comment_example_regular:
  "regular_buffer zip_chunk_comment_example 0"
  "END_CENTRAL_DIR_INDEX zip_chunk_comment_example 0 = 90"
  "read_le (slice zip_chunk_comment_example 110 2) = 65520"
  by (simp_all add: zip_chunk_comment_example_def regular_eval positions_numeral)

text \<open>The theorem on the archive whose comment length is 65520: the fixer stores 0.\<close>

theorem Fix_Zip_Offset_comment_length_witness:
  "Fix_Zip_Offset_trace zip_chunk_comment_example 0
     = Inr (zip_chunk_comment_example_fixed, [(84, 4)])
   \<and> read_le (slice zip_chunk_comment_example (END_CENTRAL_DIR_INDEX zip_chunk_comment_example 0 + 20) 2)
       = 65520
   \<and> read_le (slice zip_chunk_comment_example_fixed
        (END_CENTRAL_DIR_INDEX zip_chunk_comment_example 0 + 20) 2) = 0"
proof -
  have E: "90 = END_CENTRAL_DIR_INDEX zip_chunk_comment_example 0"
    by (simp add: comment_example_regular)
  have old: "65520 = read_le (slice zip_chunk_comment_example (90 + 20) 2)"
    by (simp add: comment_example_regular)
  from Fix_Zip_Offset_comment_length [OF comment_example_regular(1) E old]
    zip_chunk_comment_example_run
  have "read_le (slice zip_chunk_comment_example_fixed (90 + 20) 2) = 0"
    by auto
  with zip_chunk_comment_example_run old E show ?thesis
    by simp
qed

text \<open>
  The claim as worded, for every run, fails. In this buffer the end-of-central-directory
  signature that the search finds lies inside the central-directory entry, so that the
  offset field of the entry and the comment length overlap: the input holds the comment
  length 4660, the loop overwrites it with the upper half of the offset 4, and the fixer
  stores 16.
\<close>

theorem Fix_Zip_Offset_comment_length_overlap:
  "Fix_Zip_Offset_trace zip_chunk_odd_example 0 = Inr (zip_chunk_odd_example_fixed, [(86, 4)])
   \<and> END_CENTRAL_DIR_INDEX zip_chunk_odd_example 0 = 65
   \<and> read_le (slice zip_chunk_odd_example (65 + 20) 2) = 4660
   \<and> read_le (slice zip_chunk_odd_example_fixed (65 + 20) 2) = 16
   \<and> (4660 + 16) mod 2 ^ 16 \<noteq> (16 :: nat)"
  by (simp add: zip_chunk_odd_example_def zip_chunk_odd_example_fixed_def fix_eval slice_def
      read_le_def read_be_def)

section \<open>The archive inside the combined buffer\<close>

lemma search_from_skip_many:
  assumes "pat \<noteq> []" "\<forall>i<k. first + i < length vec \<and> vec ! (first + i) \<noteq> hd pat"
  shows "search_from vec first pat = search_from vec (first + k) pat"
  using assms(2)
proof (induction k)
  case 0
  then show ?case by simp
next
  case (Suc k)
  then have "search_from vec first pat = search_from vec (first + k) pat" by simp
  also have "\<dots> = search_from vec (first + k + 1) pat"
    using Suc.prems by (intro search_from_skip assms(1)) simp_all
  finally show ?case by simp
qed

lemma local_positions_start:
  "search_from vec a ZIP_SIG = search_from vec b ZIP_SIG \<Longrightarrow>
   local_positions vec a n = local_positions vec b n"
  by (cases n) simp_all

lemma slice_embed:
  "i + m \<le> length T \<Longrightarrow> slice (A @ T @ R) (length A + i) m = slice T i m"
  by (simp add: slice_def)

lemma IDAT_SIG_bytes:
  "length IDAT_SIG = 4" "\<forall>i<4. IDAT_SIG ! i \<noteq> 0x50"
  by (simp_all add: IDAT_SIG_def bytes_of_def all_less_4)

text \<open>
  A regular archive that stands in a buffer right after the bytes \<open>IDAT\<close> makes the
  buffer regular for the fixer called at the index of these bytes, and the searches find
  in the buffer the signatures of the archive, each moved by the position of the archive.
\<close>

lemma regular_embed:
  fixes A0 R zipf :: "byte list"
  assumes r: "regular_archive zipf"
    and vec: "vec = (A0 @ IDAT_SIG) @ zipf @ R"
    and idx: "idx = length A0" and z: "z = idx + 4"
    and lv: "length vec < 1342177280"
    and S0: "S0 = search_from zipf 0 START_CENTRAL_DIR_SIG"
    and E0: "E0 = search_from zipf S0 END_CENTRAL_DIR_SIG"
    and n: "n = read_le (slice zipf (E0 + 10) 2)"
  shows "regular_buffer vec idx"
    and "START_CENTRAL_DIR_INDEX vec idx = z + S0"
    and "END_CENTRAL_DIR_INDEX vec idx = z + E0"
    and "read_le (slice vec (z + E0 + 10) 2) = n"
    and "local_positions vec (idx + 1) n = map ((+) z) (local_positions zipf 0 n)"
    and "central_positions vec (z + S0) n = map ((+) z) (central_positions zipf S0 n)"
    and "S0 + 4 \<le> E0" and "E0 + 22 \<le> length zipf"
proof -
  from r have h: "E0 + 22 \<le> length zipf"
    "list_all (\<lambda>p. p + 4 \<le> S0) (local_positions zipf 0 n)"
    "list_all (\<lambda>c. c + 46 \<le> E0) (central_positions zipf S0 n)"
    unfolding regular_archive_def Let_def S0 [symmetric] E0 [symmetric] n [symmetric]
    by simp_all
  have lA: "length (A0 @ IDAT_SIG) = z" by (simp add: idx z IDAT_SIG_bytes)
  have lvec: "length vec = z + length zipf + length R"
    by (simp add: vec idx z IDAT_SIG_bytes)
  have ag: "vec ! (z + j) = zipf ! j" if "j < length zipf" for j
    unfolding vec lA [symmetric] using that by (simp add: nth_append del: append_assoc)
  have idat: "idx + i < length vec \<and> vec ! (idx + i) \<noteq> 0x50" if "i < 4" for i
    using that IDAT_SIG_bytes by (simp add: vec idx nth_append)
  have SE: "S0 \<le> E0" unfolding E0 by (rule search_from_ge)
  have Sl: "S0 < length zipf" using SE h(1) by simp
  have Shit: "take (length START_CENTRAL_DIR_SIG) (drop S0 zipf) = START_CENTRAL_DIR_SIG"
    using search_from_hit [of zipf 0 START_CENTRAL_DIR_SIG] Sl by (simp add: S0)
  have El: "E0 < length zipf" using h(1) by simp
  have Ehit: "take (length END_CENTRAL_DIR_SIG) (drop E0 zipf) = END_CENTRAL_DIR_SIG"
    using search_from_hit [of zipf S0 END_CENTRAL_DIR_SIG] El by (simp add: E0)
  have S4: "S0 + 4 \<le> length zipf"
    using window_hit_length [OF Shit] Sl by simp
  have neq: "S0 \<noteq> E0"
  proof
    assume "S0 = E0"
    with Shit Ehit have "START_CENTRAL_DIR_SIG = END_CENTRAL_DIR_SIG" by simp
    then show False by (simp add: START_CENTRAL_DIR_SIG_def END_CENTRAL_DIR_SIG_def)
  qed
  have sC: "search_from vec z START_CENTRAL_DIR_SIG = z + S0"
    using search_from_window [of zipf 0 START_CENTRAL_DIR_SIG S0 z vec] S4 ag lvec
    by (simp add: S0)
  have skipC: "search_from vec idx START_CENTRAL_DIR_SIG = search_from vec (idx + 4) START_CENTRAL_DIR_SIG"
    using idat by (intro search_from_skip_many) simp_all
  have S: "START_CENTRAL_DIR_INDEX vec idx = z + S0"
    using skipC sC by (simp add: START_CENTRAL_DIR_INDEX_def z)
  have sE: "search_from vec (z + S0) END_CENTRAL_DIR_SIG = z + E0"
    using search_from_window [of zipf S0 END_CENTRAL_DIR_SIG E0 z vec] h(1) ag lvec
    by (simp add: E0)
  have E: "END_CENTRAL_DIR_INDEX vec idx = z + E0"
    using sE by (simp add: END_CENTRAL_DIR_INDEX_def S)
  have "slice vec (z + (E0 + 10)) 2 = slice zipf (E0 + 10) 2"
    unfolding vec lA [symmetric] using h(1) by (intro slice_embed) simp
  then have cnt: "read_le (slice vec (z + E0 + 10) 2) = n"
    by (simp add: n add.assoc)
  have skipL: "search_from vec (idx + 1) ZIP_SIG = search_from vec (idx + 1 + 3) ZIP_SIG"
  proof (rule search_from_skip_many)
    show "ZIP_SIG \<noteq> []" by simp
    show "\<forall>i<3. idx + 1 + i < length vec \<and> vec ! (idx + 1 + i) \<noteq> hd ZIP_SIG"
      using idat [of 1] idat [of 2] idat [of 3]
      by (auto simp: less_Suc_eq numeral_3_eq_3 add.assoc)
  qed
  have lp: "local_positions vec (idx + 1) n = map ((+) z) (local_positions zipf 0 n)"
  proof -
    have "local_positions vec (idx + 1) n = local_positions vec (z + 0) n"
      using skipL by (intro local_positions_start) (simp add: z add.commute)
    also have "\<dots> = map ((+) z) (local_positions zipf 0 n)"
      using h(2) Sl ag lvec by (intro local_positions_window [where B = S0]) simp_all
    finally show ?thesis .
  qed
  have cp: "central_positions vec (z + S0) n = map ((+) z) (central_positions zipf S0 n)"
  proof (rule central_positions_window [where B = E0])
    show "list_all (\<lambda>c. c + 4 \<le> E0) (central_positions zipf S0 n)"
      using h(3) by (auto simp: list_all_iff)
    show "E0 \<le> length zipf" using El by simp
    show "z + E0 \<le> length vec" using El lvec by simp
    fix j assume "j < E0"
    with El show "vec ! (z + j) = zipf ! j" by (intro ag) simp
  qed
  have SE4: "S0 + 4 \<le> E0"
  proof (rule ccontr)
    assume "\<not> S0 + 4 \<le> E0"
    with SE neq have d: "S0 < E0" "E0 < S0 + 4" by simp_all
    from Shit S4 have s: "\<forall>i<4. zipf ! (S0 + i) = START_CENTRAL_DIR_SIG ! i"
      by (simp add: window_eq_iff)
    from Ehit h(1) have "\<forall>i<4. zipf ! (E0 + i) = END_CENTRAL_DIR_SIG ! i"
      by (simp add: window_eq_iff)
    from this [rule_format, of 0] have e: "zipf ! E0 = END_CENTRAL_DIR_SIG ! 0" by simp
    define i where "i = E0 - S0"
    from d have i: "E0 = S0 + i" "0 < i" "i < 4" by (simp_all add: i_def)
    from s [rule_format, of i] i e
    have "START_CENTRAL_DIR_SIG ! i = END_CENTRAL_DIR_SIG ! 0" by simp
    moreover have "\<forall>k<4. 0 < k \<longrightarrow> START_CENTRAL_DIR_SIG ! k \<noteq> END_CENTRAL_DIR_SIG ! 0"
      by (simp add: START_CENTRAL_DIR_SIG_def END_CENTRAL_DIR_SIG_def all_less_4)
    ultimately show False using i(2,3) by blast
  qed
  have rb: "regular_buffer vec idx"
    unfolding regular_buffer_def Let_def S E cnt lp cp
    using h lv lvec by (simp add: z list_all_iff add.commute)
  show "regular_buffer vec idx" by (rule rb)
  show "START_CENTRAL_DIR_INDEX vec idx = z + S0" by (rule S)
  show "END_CENTRAL_DIR_INDEX vec idx = z + E0" by (rule E)
  show "read_le (slice vec (z + E0 + 10) 2) = n" by (rule cnt)
  show "local_positions vec (idx + 1) n = map ((+) z) (local_positions zipf 0 n)" by (rule lp)
  show "central_positions vec (z + S0) n = map ((+) z) (central_positions zipf S0 n)" by (rule cp)
  show "S0 + 4 \<le> E0" by (rule SE4)
  show "E0 + 22 \<le> length zipf" by (rule h(1))
qed

section \<open>The offsets in the output of a build\<close>

lemma slice_agree:
  assumes "\<forall>i<m. ys ! (d + (a + i)) = T ! (a + i)" "a + m \<le> length T" "d + a + m \<le> length ys"
  shows "slice ys (d + a) m = slice T a m"
  using assms by (auto simp: slice_def list_eq_iff_nth_eq add.assoc)

text \<open>
  C2 for a regular archive. Let the archive stand at \<open>z\<close> in the output of a
  successful build. The signature searches find in the output the signatures of the
  archive, each moved by \<open>z\<close>. The offset field (bytes 42 to 45, little endian) of the
  \<open>k\<close>-th central-directory entry holds the position in the output of the \<open>k\<close>-th
  local-file signature, and the field at offset 16 of the end record holds the position
  in the output of the first central-directory signature.
\<close>

theorem offset_consistency:
  assumes b: "build img zipf al aw = Inr out" and r: "regular_archive zipf"
    and z: "z = length out - length zipf - 16"
    and S0: "S0 = search_from zipf 0 START_CENTRAL_DIR_SIG"
    and E0: "E0 = search_from zipf S0 END_CENTRAL_DIR_SIG"
    and n: "n = read_le (slice zipf (E0 + 10) 2)"
  shows "slice out z (S0 + 4) = take (S0 + 4) zipf
       \<and> search_from out z START_CENTRAL_DIR_SIG = z + S0
       \<and> local_positions out z n = map ((+) z) (local_positions zipf 0 n)
       \<and> central_positions out (z + S0) n = map ((+) z) (central_positions zipf S0 n)
       \<and> slice out (z + E0) 4 = END_CENTRAL_DIR_SIG
       \<and> read_le (slice out (z + E0 + 10) 2) = n
       \<and> map (\<lambda>c. read_le (slice out (c + 42) 4)) (central_positions out (z + S0) n)
           = local_positions out z n
       \<and> read_le (slice out (z + E0 + 16) 4) = search_from out z START_CENTRAL_DIR_SIG
       \<and> (\<forall>p \<in> set (local_positions out z n). slice out p 4 = ZIP_SIG)
       \<and> (\<forall>c \<in> set (central_positions out (z + S0) n). slice out c 4 = START_CENTRAL_DIR_SIG)"
proof -
  from b obtain mid S vec3 written where
    l33: "33 \<le> length img"
    and S8: "8 \<le> length S"
    and mx: "length S + (45 + length mid) + (length zipf + 12) \<le> MAX_FILE_SIZE"
    and f: "Fix_Zip_Offset_trace
       (take 33 img @ S @ mid @ (be_bytes32 (length zipf) @ IDAT_SIG @ zipf @ [0, 0, 0, 0])
          @ drop (length img - 12) img)
       (37 + (length mid + length S)) = Inr (vec3, written)"
    and len3: "length vec3 = 33 + length S + length mid + (length zipf + 12) + 12"
    and out: "out = take (length vec3 - 16) vec3
         @ be_bytes32 (unat (Crc (slice vec3 (37 + (length mid + length S)) (length zipf + 4))))
         @ drop (length vec3 - 12) vec3"
    by (rule build_shape)
  define A0 where "A0 = take 33 img @ S @ mid @ be_bytes32 (length zipf)"
  define R where "R = [0, 0, 0, 0] @ drop (length img - 12) img"
  define vec where "vec = (A0 @ IDAT_SIG) @ zipf @ R"
  define idx where "idx = length A0"
  define cds0 where "cds0 = central_positions zipf S0 n"
  define lfs0 where "lfs0 = local_positions zipf 0 n"
  have idx: "idx = 37 + (length mid + length S)"
    using l33 by (simp add: idx_def A0_def)
  have zi: "z = idx + 4"
    using len3 by (simp add: z out idx)
  have lvec: "length vec = length vec3"
    using l33 by (simp add: vec_def A0_def R_def len3 IDAT_SIG_bytes)
  have lout: "length out = length vec3"
    using len3 by (simp add: out)
  have zl: "z + length zipf + 16 = length vec3"
    using len3 by (simp add: zi idx)
  have lv: "length vec < 1342177280"
    using mx by (simp add: lvec len3 MAX_FILE_SIZE_def)
  have f': "Fix_Zip_Offset_trace vec idx = Inr (vec3, written)"
    using f by (simp add: vec_def A0_def R_def idx)
  note e = regular_embed [OF r vec_def idx_def zi lv S0 E0 n]
  from regular_buffer_run [OF e(1) e(2) [symmetric] e(3) [symmetric] e(4) [symmetric]
      e(6) [symmetric] e(5) [symmetric]] f'
  have fr: "\<forall>j<length vec. (\<forall>c \<in> set (map ((+) z) cds0). j < c + 42 \<or> c + 45 < j)
        \<and> (j < z + E0 + 16 \<or> z + E0 + 21 < j) \<longrightarrow> vec3 ! j = vec ! j"
    and fields: "\<forall>k<n. read_le (slice vec3 (map ((+) z) cds0 ! k + 42) 4) = map ((+) z) lfs0 ! k"
    and ef: "read_le (slice vec3 (z + E0 + 16) 4) = z + S0"
    and csig: "\<forall>c \<in> set (map ((+) z) cds0). slice vec3 c 4 = START_CENTRAL_DIR_SIG"
    and lsig: "\<forall>p \<in> set (map ((+) z) lfs0). slice vec3 p 4 = ZIP_SIG"
    unfolding cds0_def lfs0_def by auto
  from r have h: "list_all (\<lambda>p. p + 4 \<le> S0) lfs0" "list_all (\<lambda>c. c + 46 \<le> E0) cds0"
    unfolding regular_archive_def Let_def S0 [symmetric] E0 [symmetric] n [symmetric]
      cds0_def lfs0_def by simp_all
  have El: "E0 + 22 \<le> length zipf" and SE: "S0 + 4 \<le> E0"
    by (rule e(8), rule e(7))
  have cds_E: "c + 46 \<le> E0" if "c \<in> set cds0" for c
    using that h(2) by (simp add: list_all_iff)
  have cds_S: "S0 \<le> c" if "c \<in> set cds0" for c
    using that central_positions_ge [of c zipf S0 n] by (simp add: cds0_def)
  have lfs_S: "p + 4 \<le> S0" if "p \<in> set lfs0" for p
    using that h(1) by (simp add: list_all_iff)
  have o3: "out ! j = vec3 ! j" if "j < length vec3 - 16" for j
    using that by (simp add: out nth_append)
  have s3: "slice out i m = slice vec3 i m" if "i + m \<le> z + length zipf" for i m
  proof (rule slice_cong)
    show "i + m \<le> length vec3" using that zl by simp
    show "length out = length vec3" by (rule lout)
    fix j assume "j < i + m"
    with that zl show "out ! j = vec3 ! j" by (intro o3) simp
  qed
  have emb: "vec ! (z + j) = zipf ! j" if "j < length zipf" for j
  proof -
    have "length (A0 @ IDAT_SIG) = z" by (simp add: zi idx_def IDAT_SIG_bytes)
    then show ?thesis
      unfolding vec_def using that by (metis nth_append_length_plus nth_append)
  qed
  have agree: "out ! (z + j) = zipf ! j"
    if "j < length zipf" "\<forall>c \<in> set cds0. j < c + 42 \<or> c + 45 < j" "j < E0 + 16 \<or> E0 + 21 < j"
    for j
  proof -
    have "out ! (z + j) = vec3 ! (z + j)" using that(1) zl by (intro o3) simp
    also have "vec3 ! (z + j) = vec ! (z + j)"
    proof -
      have "z + j < length vec" using that(1) zl lvec by simp
      moreover have "\<forall>c \<in> set (map ((+) z) cds0). z + j < c + 42 \<or> c + 45 < z + j"
        using that(2) by auto
      moreover have "z + j < z + E0 + 16 \<or> z + E0 + 21 < z + j"
        using that(3) by auto
      ultimately show ?thesis using fr by blast
    qed
    also have "vec ! (z + j) = zipf ! j" using that(1) by (rule emb)
    finally show ?thesis .
  qed
  have low: "out ! (z + j) = zipf ! j" if "j < S0 + 4" for j
  proof (rule agree)
    show "j < length zipf" using that SE El by simp
    show "\<forall>c \<in> set cds0. j < c + 42 \<or> c + 45 < j" using that cds_S by fastforce
    show "j < E0 + 16 \<or> E0 + 21 < j" using that SE by simp
  qed
  have Slz: "S0 + 4 \<le> length zipf" using SE El by simp
  have c0: "slice out z (S0 + 4) = take (S0 + 4) zipf"
  proof -
    have "slice out (z + 0) (S0 + 4) = slice zipf 0 (S0 + 4)"
      using low Slz zl lout by (intro slice_agree) simp_all
    then show ?thesis by (simp add: slice_def)
  qed
  have c1: "search_from out z START_CENTRAL_DIR_SIG = z + S0"
  proof -
    have "search_from out (z + 0) START_CENTRAL_DIR_SIG = z + S0"
    proof (rule search_from_window [where T = zipf])
      show "search_from zipf 0 START_CENTRAL_DIR_SIG = S0" by (simp add: S0)
      show "S0 + length START_CENTRAL_DIR_SIG \<le> length zipf" using Slz by simp
      show "START_CENTRAL_DIR_SIG \<noteq> []" by simp
      show "z + S0 + length START_CENTRAL_DIR_SIG \<le> length out" using Slz zl lout by simp
      fix j assume "j < S0 + length START_CENTRAL_DIR_SIG"
      then show "out ! (z + j) = zipf ! j" by (intro low) simp
    qed
    then show ?thesis by simp
  qed
  have c2: "local_positions out z n = map ((+) z) lfs0"
  proof -
    have "local_positions out (z + 0) n = map ((+) z) (local_positions zipf 0 n)"
    proof (rule local_positions_window [where B = S0])
      show "list_all (\<lambda>p. p + 4 \<le> S0) (local_positions zipf 0 n)"
        using h(1) by (simp add: lfs0_def)
      show "S0 \<le> length zipf" using Slz by simp
      show "z + S0 \<le> length out" using Slz zl lout by simp
      fix j assume "j < S0"
      then show "out ! (z + j) = zipf ! j" by (intro low) simp
    qed
    then show ?thesis by (simp add: lfs0_def)
  qed
  have c3: "central_positions out (z + S0) n = map ((+) z) cds0"
    unfolding cds0_def
  proof (rule central_positions_window [where B = E0])
    show "list_all (\<lambda>c. c + 4 \<le> E0) (central_positions zipf S0 n)"
      using h(2) by (auto simp: list_all_iff cds0_def)
    show "E0 \<le> length zipf" using El by simp
    show "z + E0 \<le> length out" using El zl lout by simp
    fix j assume j: "j < E0" "\<forall>c \<in> set (central_positions zipf S0 n). j < c + 42 \<or> c + 45 < j"
    show "out ! (z + j) = zipf ! j"
    proof (rule agree)
      show "j < length zipf" using j(1) El by simp
      show "\<forall>c \<in> set cds0. j < c + 42 \<or> c + 45 < j" using j(2) by (simp add: cds0_def)
      show "j < E0 + 16 \<or> E0 + 21 < j" using j(1) by simp
    qed
  qed
  have tail: "out ! (z + (E0 + i)) = zipf ! (E0 + i)" if "i < 16" for i
  proof (rule agree)
    show "E0 + i < length zipf" using that El by simp
    show "\<forall>c \<in> set cds0. E0 + i < c + 42 \<or> c + 45 < E0 + i"
      using cds_E by fastforce
    show "E0 + i < E0 + 16 \<or> E0 + 21 < E0 + i" using that by simp
  qed
  have c4: "slice out (z + E0) 4 = END_CENTRAL_DIR_SIG"
  proof -
    have "slice out (z + E0) 4 = slice zipf E0 4"
      using tail El zl lout by (intro slice_agree) simp_all
    moreover have "slice zipf E0 4 = END_CENTRAL_DIR_SIG"
      using search_from_hit [of zipf S0 END_CENTRAL_DIR_SIG] El
      by (simp add: E0 [symmetric] slice_def)
    ultimately show ?thesis by simp
  qed
  have c5: "read_le (slice out (z + E0 + 10) 2) = n"
  proof -
    have "slice out (z + (E0 + 10)) 2 = slice zipf (E0 + 10) 2"
    proof (rule slice_agree)
      show "\<forall>i<2. out ! (z + (E0 + 10 + i)) = zipf ! (E0 + 10 + i)"
        using tail [of 10] tail [of 11] by (simp add: all_less_2 add.assoc)
      show "E0 + 10 + 2 \<le> length zipf" using El by simp
      show "z + (E0 + 10) + 2 \<le> length out" using El zl lout by simp
    qed
    then show ?thesis by (simp add: n add.assoc)
  qed
  have ln: "length cds0 = n" "length lfs0 = n"
    by (simp_all add: cds0_def lfs0_def)
  have c6: "map (\<lambda>c. read_le (slice out (c + 42) 4)) (map ((+) z) cds0) = map ((+) z) lfs0"
  proof (rule nth_equalityI)
    show "length (map (\<lambda>c. read_le (slice out (c + 42) 4)) (map ((+) z) cds0))
        = length (map ((+) z) lfs0)"
      by (simp add: ln)
    fix k assume "k < length (map (\<lambda>c. read_le (slice out (c + 42) 4)) (map ((+) z) cds0))"
    then have k: "k < n" by (simp add: ln)
    then have "cds0 ! k \<in> set cds0" by (simp add: ln)
    from cds_E [OF this] El
    have "slice out (z + cds0 ! k + 42) 4 = slice vec3 (z + cds0 ! k + 42) 4"
      by (intro s3) simp
    with fields k
    show "map (\<lambda>c. read_le (slice out (c + 42) 4)) (map ((+) z) cds0) ! k = map ((+) z) lfs0 ! k"
      by (simp add: ln)
  qed
  have c7: "read_le (slice out (z + E0 + 16) 4) = z + S0"
  proof -
    have "slice out (z + E0 + 16) 4 = slice vec3 (z + E0 + 16) 4"
      using El by (intro s3) simp
    with ef show ?thesis by simp
  qed
  have c8: "\<forall>p \<in> set (map ((+) z) lfs0). slice out p 4 = ZIP_SIG"
  proof
    fix p assume p: "p \<in> set (map ((+) z) lfs0)"
    then obtain q where q: "p = z + q" "q \<in> set lfs0" by auto
    from lfs_S [OF q(2)] Slz have "slice out p 4 = slice vec3 p 4"
      unfolding q(1) by (intro s3) simp
    with lsig p show "slice out p 4 = ZIP_SIG" by auto
  qed
  have c9: "\<forall>c \<in> set (map ((+) z) cds0). slice out c 4 = START_CENTRAL_DIR_SIG"
  proof
    fix c assume c: "c \<in> set (map ((+) z) cds0)"
    then obtain q where q: "c = z + q" "q \<in> set cds0" by auto
    from cds_E [OF q(2)] El have "slice out c 4 = slice vec3 c 4"
      unfolding q(1) by (intro s3) simp
    with csig c show "slice out c 4 = START_CENTRAL_DIR_SIG" by auto
  qed
  show ?thesis
    unfolding c1 c2 c3 using c0 c4 c5 c6 c7 c8 c9
    by (simp add: cds0_def lfs0_def)
qed

section \<open>The example build and a build on an irregular archive\<close>

lemma zip_ex_regular:
  "regular_archive zip_ex"
  "search_from zip_ex 0 START_CENTRAL_DIR_SIG = 72"
  "search_from zip_ex 72 END_CENTRAL_DIR_SIG = 174"
  "read_le (slice zip_ex 184 2) = 2"
  "local_positions zip_ex 0 2 = [0, 37]"
  "central_positions zip_ex 72 2 = [72, 123]"
  by (simp_all add: zip_ex_def regular_archive_def START_CENTRAL_DIR_SIG_def
      END_CENTRAL_DIR_SIG_def ZIP_SIG_def search_from_def slice_def read_le_def read_be_def
      Let_def positions_numeral)

lemma length_out_ex: "length out_ex = 609"
  by (simp add: out_ex_def lengths_ex)

text \<open>
  The theorem on the example build: the archive stands at 397, its two local-file
  signatures at 397 and 434, its two central-directory entries at 469 and 520, its end
  record at 571.
\<close>

theorem offset_consistency_witness:
  "build png_ex zip_ex [] [] = Inr out_ex
   \<and> search_from out_ex 397 START_CENTRAL_DIR_SIG = 469
   \<and> local_positions out_ex 397 2 = [397, 434]
   \<and> central_positions out_ex 469 2 = [469, 520]
   \<and> map (\<lambda>c. read_le (slice out_ex (c + 42) 4)) [469, 520] = [397, 434]
   \<and> read_le (slice out_ex (571 + 16) 4) = 469"
proof -
  have z: "397 = length out_ex - length zip_ex - 16"
    by (simp add: length_out_ex lengths_ex)
  have S0: "72 = search_from zip_ex 0 START_CENTRAL_DIR_SIG"
    and E0: "174 = search_from zip_ex 72 END_CENTRAL_DIR_SIG"
    and n: "2 = read_le (slice zip_ex (174 + 10) 2)"
    by (simp_all add: zip_ex_regular)
  from offset_consistency [OF build_ex zip_ex_regular(1) z S0 E0 n] build_ex
  show ?thesis
    by (elim conjE) (simp add: zip_ex_regular)
qed

lemma lengths_odd:
  "length zip_odd_ex = 110" "length zip_body_fixed_odd_ex = 114"
  by (simp_all add: zip_odd_ex_def zip_body_fixed_odd_ex_def)

lemma frame_zip_odd:
  "frame_zip zip_odd_ex True = Inr ([0, 0, 0, 110] @ IDAT_SIG @ zip_odd_ex @ [0, 0, 0, 0])"
  by (simp add: frame_zip_eq lengths_odd be_bytes32_def)

lemma zip_checks_odd:
  "34 < length ([0, 0, 0, 110] @ IDAT_SIG @ zip_odd_ex @ [0, 0, 0, 0])"
  "slice ([0, 0, 0, 110] @ IDAT_SIG @ zip_odd_ex @ [0, 0, 0, 0]) 8 4 = ZIP_SIG"
  "4 \<le> unat (([0, 0, 0, 110] @ IDAT_SIG @ zip_odd_ex @ [0, 0, 0, 0]) ! 34)"
  by (simp_all add: IDAT_SIG_def bytes_of_def zip_odd_ex_def slice_def ZIP_SIG_def)

lemma compose_script_odd:
  "compose_script ([0, 0, 0, 110] @ IDAT_SIG @ zip_odd_ex @ [0, 0, 0, 0]) [] []
     = Inr ([0, 0] @ [0, 0xFD] @ script_body_ex @ [0, 0, 0, 0])"
  by (simp add: IDAT_SIG_def zip_odd_ex_def script_body_ex_def compose_eval)

lemma fix_odd:
  "length P = 393 \<Longrightarrow>
   Fix_Zip_Offset_trace (P @ (IDAT_SIG @ zip_odd_ex) @ [0, 0, 0, 0] @ drop 88 png_ex) 393
     = Inr (P @ zip_body_fixed_odd_ex @ [0, 0, 0, 0] @ drop 88 png_ex, [(479, 397)])"
  by (simp add: IDAT_SIG_def bytes_of_def zip_odd_ex_def zip_body_fixed_odd_ex_def png_ex_def
      fix_eval nth_append list_update_append)

lemma build_odd: "build png_ex zip_odd_ex [] [] = Inr out_odd_ex"
proof -
  let ?hdr = "take 33 png_ex" and ?iend = "drop 88 png_ex"
  let ?zv = "[0, 0, 0, 110] @ IDAT_SIG @ zip_odd_ex @ [0, 0, 0, 0]"
  let ?s0 = "[0, 0] @ [0, 0xFD] @ script_body_ex @ [0, 0, 0, 0]"
  let ?pdv = "\<lparr>Image_Vec = ?hdr @ mid_ex @ ?iend, Zip_Vec = ?zv, Script_Vec = ?s0,
        image_name = [], zip_name = [], image_size = length (?hdr @ mid_ex @ ?iend),
        zip_size = length ?zv, script_size = 0,
        combined_file_size = length png_ex + length zip_odd_ex, big_endian = True\<rparr>"
  let ?S = "[0, 0] @ be_bytes16 (length script_body_ex - 4) @ script_body_ex
              @ be_bytes32 (unat (Crc script_body_ex))"
  let ?pdv' = "?pdv\<lparr>script_size := 8 + length script_body_ex,
        combined_file_size := 8 + length script_body_ex + length (Image_Vec ?pdv)
           + length (Zip_Vec ?pdv),
        Script_Vec := ?S\<rparr>"
  have li: "length (IDAT_SIG) = 4"
    by (simp add: IDAT_SIG_def bytes_of_def)
  have 1: "file_size_check (length png_ex) (length zip_odd_ex) = None"
    by (simp add: lengths_ex lengths_odd file_size_check_None_iff)
  have 3: "prune_image png_ex (length png_ex) = Inr (?hdr @ mid_ex @ ?iend)"
    by (simp add: lengths_ex prune_image_png_ex)
  have 6: "finish_script ?pdv = Inr ?pdv'"
    by (rule finish_script_plain [where l = "[0, 0xFD]" and c = "[0, 0, 0, 0]"])
      (simp_all add: lengths_ex lengths_odd li be_bytes16_def BAD_CHAR_def MAX_FILE_SIZE_def)
  have f: "Fix_Zip_Offset_trace (P @ (IDAT_SIG @ zip_odd_ex) @ [0, 0, 0, 0] @ ?iend)
          (37 + (length mid_ex + length (Script_Vec ?pdv')))
        = Inr (P @ zip_body_fixed_odd_ex @ [0, 0, 0, 0] @ ?iend, [(479, 397)])"
    if "length P = 37 + (length mid_ex + length (Script_Vec ?pdv'))" for P
    using that fix_odd [of P] by (simp add: lengths_ex)
  have "Combine_Vectors ?pdv' =
     Inr (?hdr @ Script_Vec ?pdv' @ mid_ex @ [0, 0, 0, 110] @ zip_body_fixed_odd_ex
           @ be_bytes32 (unat (Crc zip_body_fixed_odd_ex)) @ ?iend)"
    by (rule Combine_Vectors_run [where B = "IDAT_SIG @ zip_odd_ex" and C = "[0, 0, 0, 0]", OF _ _ _ _ _ _ _ _ _ _ f])
      (simp_all add: lengths_ex lengths_odd)
  also have "?hdr @ Script_Vec ?pdv' @ mid_ex @ [0, 0, 0, 110] @ zip_body_fixed_odd_ex
           @ be_bytes32 (unat (Crc zip_body_fixed_odd_ex)) @ ?iend = out_odd_ex"
    by (simp add: out_odd_ex_def lengths_ex lengths_odd) (simp add: be_bytes32_def)
  finally have 7: "Combine_Vectors ?pdv' = Inr out_odd_ex" .
  show ?thesis
    by (rule build_stages [OF 1 check_image_png_ex 3 frame_zip_odd zip_checks_odd compose_script_odd])
      (use 6 7 in \<open>simp_all add: lengths_ex lengths_odd li\<close>)
qed

text \<open>
  The claim as worded, for every successful build, fails. In the archive of this build
  the end-of-central-directory signature that the search finds lies inside the
  central-directory entry, and the end record counts one entry. The archive stands at 397
  in the output, its local-file signature at 397 and its central-directory entry at 434;
  the offset field of the entry, overwritten by the two writes to the end record, holds
  1048576.
\<close>

theorem offset_field_overwritten:
  "build png_ex zip_odd_ex [] [] = Inr out_odd_ex
   \<and> length out_odd_ex - length zip_odd_ex - 16 = 397
   \<and> search_from out_odd_ex 397 ZIP_SIG = 397
   \<and> search_from out_odd_ex 397 START_CENTRAL_DIR_SIG = 434
   \<and> read_le (slice out_odd_ex (434 + 42) 4) = 1048576"
proof -
  have d: "drop 397 out_odd_ex
      = drop 4 zip_body_fixed_odd_ex @ be_bytes32 (unat (Crc zip_body_fixed_odd_ex))
          @ drop 88 png_ex"
    by (simp add: out_odd_ex_def lengths_ex lengths_odd)
  have l: "length out_odd_ex = 523"
    by (simp add: out_odd_ex_def lengths_ex lengths_odd)
  have s1: "search_from out_odd_ex 397 ZIP_SIG = 397"
    "search_from out_odd_ex 397 START_CENTRAL_DIR_SIG = 434"
    unfolding search_from_def d
    by (simp_all add: zip_body_fixed_odd_ex_def ZIP_SIG_def START_CENTRAL_DIR_SIG_def)
  have "slice out_odd_ex (397 + 79) 4 = slice (drop 397 out_odd_ex) 79 4"
    by (simp add: slice_def add.commute)
  then have s2: "read_le (slice out_odd_ex (434 + 42) 4) = 1048576"
    unfolding d by (simp add: zip_body_fixed_odd_ex_def slice_def read_le_def read_be_def)
  from build_odd l s1 s2 show ?thesis
    by (simp add: lengths_odd)
qed

end
